theory Spec2Isabelle
  imports Main "HOL-Library.Sublist" "HOL-Library.Word"
begin

section \<open>JavaScript string primitives used by \<open>App.tsx\<close>\<close>

text \<open>
  Strings are lists of 8-bit characters, read as UTF-16 code units below 256. On these
  code units the white space of \<open>String.prototype.trim\<close> and of the regular-expression
  class \<open>\s\<close> is TAB, LF, VT, FF, CR, SPACE and NBSP; the class \<open>\d\<close> is \<open>0\<close>..\<open>9\<close>.
\<close>

definition is_space :: "char \<Rightarrow> bool" where
  "is_space c \<longleftrightarrow>
     c \<in> set [CHR 0x09, CHR 0x0A, CHR 0x0B, CHR 0x0C, CHR 0x0D, CHR 0x20, CHR 0xA0]"

definition is_digit :: "char \<Rightarrow> bool" where
  "is_digit c \<longleftrightarrow> c \<in> set ''0123456789''"

text \<open>\<open>s.trim()\<close>: white space removed at both ends.\<close>

definition trim :: "string \<Rightarrow> string" where
  "trim s = rev (dropWhile is_space (rev (dropWhile is_space s)))"

text \<open>\<open>s.startsWith(p)\<close> and \<open>s.includes(p)\<close>.\<close>

definition startsWith :: "string \<Rightarrow> string \<Rightarrow> bool" where
  "startsWith s p \<longleftrightarrow> prefix p s"

fun includes_str :: "string \<Rightarrow> string \<Rightarrow> bool" where
  "includes_str [] p \<longleftrightarrow> p = []"
| "includes_str (c # cs) p \<longleftrightarrow> prefix p (c # cs) \<or> includes_str cs p"

text \<open>\<open>/^\d+$/.test(s)\<close>: one or more digits and nothing else.\<close>

definition all_digits :: "string \<Rightarrow> bool" where
  "all_digits s \<longleftrightarrow> s \<noteq> [] \<and> list_all is_digit s"

text \<open>
  \<open>s.split(sep)\<close> for a one-character separator: the pieces between the separators, in
  order; a string without separator is its own single piece, the empty string included.
  The second argument is the piece being read, newest character first.
\<close>

fun split_chr :: "char \<Rightarrow> string \<Rightarrow> string \<Rightarrow> string list" where
  "split_chr sep cur [] = [rev cur]"
| "split_chr sep cur (c # cs) =
     (if c = sep then rev cur # split_chr sep [] cs else split_chr sep (c # cur) cs)"

definition split_lines :: "string \<Rightarrow> string list" where
  "split_lines s = split_chr (CHR 0x0A) [] s"

text \<open>\<open>xs.join(sep)\<close>.\<close>

fun join :: "string \<Rightarrow> string list \<Rightarrow> string" where
  "join sep [] = []"
| "join sep [x] = x"
| "join sep (x # y # ys) = x @ sep @ join sep (y # ys)"

section \<open>\<open>parseVTT\<close>\<close>

text \<open>
  The \<open>for\<close> loop of \<open>parseVTT\<close> over the lines, with the array \<open>output\<close> as the accumulator \<open>outp\<close>:
  each \<open>continue\<close> is a branch that leaves it as it is, in the order of the source.
\<close>

fun parseVTT_loop :: "string list \<Rightarrow> string list \<Rightarrow> string list" where
  "parseVTT_loop [] outp = outp"
| "parseVTT_loop (line # lines) outp =
     (let trim' = trim line in
      if trim' = [] then parseVTT_loop lines outp
      else if startsWith trim' ''WEBVTT'' then parseVTT_loop lines outp
      else if startsWith trim' ''NOTE'' then parseVTT_loop lines outp
      else if includes_str trim' ''-->'' then parseVTT_loop lines outp
      else if all_digits trim' then parseVTT_loop lines outp
      else parseVTT_loop lines (outp @ [trim']))"

definition parseVTT :: "string \<Rightarrow> string" where
  "parseVTT vtt = join '' '' (parseVTT_loop (split_lines vtt) [])"

text \<open>
  The line classes in the words of the specification: a trimmed line is discarded when it
  is blank, a header line, a note line, a pure-numeric cue index, or a timestamp range.
\<close>

definition blank_line :: "string \<Rightarrow> bool" where
  "blank_line t \<longleftrightarrow> t = []"

definition header_line :: "string \<Rightarrow> bool" where
  "header_line t \<longleftrightarrow> prefix ''WEBVTT'' t"

definition note_line :: "string \<Rightarrow> bool" where
  "note_line t \<longleftrightarrow> prefix ''NOTE'' t"

definition cue_index_line :: "string \<Rightarrow> bool" where
  "cue_index_line t \<longleftrightarrow> t \<noteq> [] \<and> list_all is_digit t"

definition range_line :: "string \<Rightarrow> bool" where
  "range_line t \<longleftrightarrow> (\<exists>a b. t = a @ ''-->'' @ b)"

definition discarded :: "string \<Rightarrow> bool" where
  "discarded t \<longleftrightarrow>
     blank_line t \<or> header_line t \<or> note_line t \<or> cue_index_line t \<or> range_line t"

definition spoken_lines :: "string \<Rightarrow> string list" where
  "spoken_lines vtt = filter (\<lambda>t. \<not> discarded t) (map trim (split_lines vtt))"

definition nl :: string where
  "nl = [CHR 0x0A]"

text \<open>The cue document of the specification's parsing example.\<close>

definition example_vtt :: string where
  "example_vtt =
     ''WEBVTT'' @ nl @
     ''NOTE generated'' @ nl @
     ''1'' @ nl @
     ''00:00:00.000 --> 00:00:02.000'' @ nl @
     ''Hello there.'' @ nl @
     ''2'' @ nl @
     ''00:00:02.000 --> 00:00:04.000'' @ nl @
     ''How are you?''"

section \<open>Sentence splitting in \<open>fetchZoomTranscript\<close>\<close>

text \<open>
  \<open>cleanText.split(/(?<=[.!?])\s+/)\<close>. The regular expression matches at a position
  exactly when the character before it is one of \<open>.\<close>, \<open>!\<close>, \<open>?\<close> and the
  character at it is white space, and the match then takes the whole run of white space.
  \<open>split\<close> scans the positions from left to right; at a match it closes the piece read
  so far and resumes behind the match, where the look-behind sees white space and fails.
  The first argument says whether the look-behind holds at the current position, the
  second is the piece being read, newest character first.
\<close>

definition is_terminator :: "char \<Rightarrow> bool" where
  "is_terminator c \<longleftrightarrow> c \<in> set ''.!?''"

function split_sentences :: "bool \<Rightarrow> string \<Rightarrow> string \<Rightarrow> string list" where
  "split_sentences lb cur [] = [rev cur]"
| "split_sentences lb cur (c # cs) =
     (if lb \<and> is_space c
      then rev cur # split_sentences False [] (dropWhile is_space cs)
      else split_sentences (is_terminator c) (c # cur) cs)"
  by pat_completeness auto
termination
  by (relation "measure (\<lambda>(lb, cur, s). length s)")
     (auto simp: less_Suc_eq_le length_dropWhile_le)

definition sentences :: "string \<Rightarrow> string list" where
  "sentences cleanText = split_sentences False [] cleanText"

text \<open>
  The \<open>forEach\<close> over the sentences, from a given index on: the timers it registers, each
  as the delay in milliseconds and the text its callback passes to \<open>enqueueTranslation\<close>.
\<close>

fun forEach_sentence :: "nat \<Rightarrow> string list \<Rightarrow> (nat \<times> string) list" where
  "forEach_sentence index [] = []"
| "forEach_sentence index (sentence # rest) =
     (if trim sentence \<noteq> []
      then (index * 100, trim sentence) # forEach_sentence (Suc index) rest
      else forEach_sentence (Suc index) rest)"

definition zoom_timers :: "string \<Rightarrow> (nat \<times> string) list" where
  "zoom_timers cleanText = forEach_sentence 0 (sentences cleanText)"

text \<open>A terminator directly followed by white space somewhere in a string.\<close>

fun has_break :: "string \<Rightarrow> bool" where
  "has_break (c # d # cs) \<longleftrightarrow> (is_terminator c \<and> is_space d) \<or> has_break (d # cs)"
| "has_break _ \<longleftrightarrow> False"

text \<open>
  The split in the words of the specification, as a relation between a text and its
  sentences. A text without a terminator followed by white space is one sentence. A text
  with one is cut at the first: the sentence before the cut ends with the terminator,
  the white space behind it is dropped, all of it, and what follows is split in the
  same way.
\<close>

inductive sentence_split :: "string \<Rightarrow> string list \<Rightarrow> bool" where
  whole: "\<not> has_break t \<Longrightarrow> sentence_split t [t]"
| cut: "u \<noteq> [] \<Longrightarrow> is_terminator (last u) \<Longrightarrow> \<not> has_break u \<Longrightarrow>
        w \<noteq> [] \<Longrightarrow> list_all is_space w \<Longrightarrow>
        rest = [] \<or> \<not> is_space (hd rest) \<Longrightarrow>
        sentence_split rest us \<Longrightarrow> sentence_split (u @ w @ rest) (u # us)"

section \<open>The translation queue\<close>

text \<open>
  \<open>TranslationItem\<close>, and the parts of a speech response as \<open>speakWithGemini\<close> reads
  them: a part carries inline data or not, and inline data carries a media type and
  base64 text, each of which the response may leave out.
\<close>

record TranslationItem =
  source :: string
  translated :: string

record blob =
  mimeType :: "string option"
  data :: "string option"

record part =
  inlineData :: "blob option"

type_synonym byte = "8 word"

text \<open>
  What the component does to the outside, in order: status updates, console errors and
  calls of \<open>ai.models.generateContent\<close>, recorded with the stage and the text sent.
\<close>

datatype request = TranslateRequest string | SpeechRequest string

datatype effect = SetStatus string | ConsoleError string | NetworkCall request

text \<open>
  A \<open>processQueue\<close> call suspended at one of its two \<open>await\<close>s while the network call
  of the awaited function is in flight, with its local variables \<open>chunk\<close> and
  \<open>translated\<close>. \<open>enqueueTranslation\<close> is called from the recognition callback and from
  timers only, one call per callback. When the awaited function has returned without a
  network call, or when a network call has settled, the continuations are microtasks:
  they run before the event loop delivers the next callback. So other callbacks come in
  between only while a network call is in flight, and what lies between two such points
  is one step of the model.
\<close>

datatype pending = AwaitTranslate string | AwaitSpeak string string

text \<open>
  The refs and state the queue uses; \<open>translationItems\<close> is the React state
  \<open>translations\<close>, which is a keyword here. \<open>audioStreamer\<close> is \<open>None\<close> while
  \<open>audioStreamerRef.current\<close> is null, and otherwise holds the buffers passed to
  \<open>addPCM16\<close> so far. \<open>loops\<close> are the suspended \<open>processQueue\<close> calls.
\<close>

record state =
  translationQueue :: "string list"
  processingQueue :: bool
  translationItems :: "TranslationItem list"
  status :: string
  audioStreamer :: "byte list list option"
  effects :: "effect list"
  loops :: "pending list"

text \<open>
  The API key, fixed while the queue runs, and the two functions that \<open>speakWithGemini\<close>
  calls and whose source is not part of the sources at hand: they are parameters.
  \<open>base64ToArrayBuffer\<close> of \<open>lib/utils\<close> gets the base64 text of the inline data,
  missing or not, and gives the bytes, or \<open>None\<close> when it throws. \<open>addPCM16\<close> of the
  streamer says of a buffer whether the call returns; otherwise it throws.
\<close>

record env =
  apiKey :: string
  base64ToArrayBuffer :: "string option \<Rightarrow> byte list option"
  addPCM16 :: "byte list \<Rightarrow> bool"

definition setStatus :: "string \<Rightarrow> state \<Rightarrow> state" where
  "setStatus msg s = s\<lparr>status := msg, effects := effects s @ [SetStatus msg]\<rparr>"

definition emit :: "effect \<Rightarrow> state \<Rightarrow> state" where
  "emit e s = s\<lparr>effects := effects s @ [e]\<rparr>"

text \<open>An async call either returns before any network call or awaits one.\<close>

datatype 'a outcome = Returned 'a | Awaiting

text \<open>\<open>translateWithGemini\<close> up to its \<open>await\<close>.\<close>

definition translateWithGemini :: "env \<Rightarrow> string \<Rightarrow> state \<Rightarrow> state \<times> string option outcome" where
  "translateWithGemini e text s =
     (if apiKey e = [] then (setStatus ''Missing Gemini API Key'' s, Returned None)
      else (emit (NetworkCall (TranslateRequest text)) s, Awaiting))"

text \<open>
  \<open>translateWithGemini\<close> from its \<open>await\<close> on. The call was rejected with an error
  (\<open>Inl\<close> of its message), which is logged and thrown again, or it gave a response whose
  \<open>text\<close> may be missing; the result is \<open>response.text?.trim() || null\<close>.
\<close>

definition translateWithGemini_resume ::
  "string + string option \<Rightarrow> state \<Rightarrow> state \<times> (string + string option)" where
  "translateWithGemini_resume r s =
     (case r of
        Inl msg \<Rightarrow> (emit (ConsoleError ''Translation API error'') s, Inl msg)
      | Inr None \<Rightarrow> (s, Inr None)
      | Inr (Some t) \<Rightarrow> (s, Inr (if trim t = [] then None else Some (trim t))))"

text \<open>\<open>speakWithGemini\<close> up to its \<open>await\<close>.\<close>

definition speakWithGemini :: "env \<Rightarrow> string \<Rightarrow> state \<Rightarrow> state \<times> unit outcome" where
  "speakWithGemini e text s =
     (if apiKey e = [] then (s, Returned ())
      else (emit (NetworkCall (SpeechRequest text)) s, Awaiting))"

text \<open>
  The loop of \<open>speakWithGemini\<close> over the parts of the response. It stands inside the
  \<open>try\<close>, so it ends normally or at the first throw, with the state reached so far:
  \<open>part.inlineData.mimeType.startsWith\<close> throws when the media type is missing, and
  the two parameters may throw.
\<close>

datatype 'a completion = Normal 'a | Thrown 'a

fun speak_parts :: "env \<Rightarrow> part list \<Rightarrow> state \<Rightarrow> state completion" where
  "speak_parts e [] s = Normal s"
| "speak_parts e (p # ps) s =
     (case inlineData p of
        None \<Rightarrow> speak_parts e ps s
      | Some d \<Rightarrow>
          (case mimeType d of
             None \<Rightarrow> Thrown s
           | Some m \<Rightarrow>
               if startsWith m ''audio'' then
                 (case base64ToArrayBuffer e (data d) of
                    None \<Rightarrow> Thrown s
                  | Some buffer \<Rightarrow>
                      (case audioStreamer s of
                         None \<Rightarrow> speak_parts e ps s
                       | Some q \<Rightarrow>
                           (let s1 = s\<lparr>audioStreamer := Some (q @ [buffer])\<rparr> in
                            if addPCM16 e buffer then speak_parts e ps s1 else Thrown s1)))
               else speak_parts e ps s))"

text \<open>
  \<open>speakWithGemini\<close> from its \<open>await\<close> on: an error of the call, or a throw in the loop
  over the parts, is caught here and logged; a response gives
  \<open>response.candidates?.[0]?.content?.parts\<close>, which may be missing.
\<close>

definition speakWithGemini_resume :: "env \<Rightarrow> string + part list option \<Rightarrow> state \<Rightarrow> state" where
  "speakWithGemini_resume e r s =
     (case r of
        Inl msg \<Rightarrow> emit (ConsoleError ''TTS Error'') s
      | Inr None \<Rightarrow> s
      | Inr (Some ps) \<Rightarrow>
          (case speak_parts e ps s of
             Normal s1 \<Rightarrow> s1
           | Thrown s1 \<Rightarrow> emit (ConsoleError ''TTS Error'') s1))"

text \<open>
  One iteration of the \<open>while\<close> loop of \<open>processQueue\<close> for a non-empty chunk, in three
  pieces: from the \<open>try\<close> to the first suspension, from the value of
  \<open>translateWithGemini\<close> on, and the two continuations after a network call. Each gives
  the new state, and the suspension, or \<open>None\<close> when the iteration is over.
\<close>

definition body_translated ::
  "env \<Rightarrow> string \<Rightarrow> string option \<Rightarrow> state \<Rightarrow> state \<times> pending option" where
  "body_translated e chunk tr s =
     (case tr of
        None \<Rightarrow> (s, None)
      | Some t \<Rightarrow>
          (let s1 = s\<lparr>translationItems := translationItems s @ [\<lparr>source = chunk, translated = t\<rparr>]\<rparr>;
               s2 = setStatus ''Speaking...'' s1
           in case speakWithGemini e t s2 of
                (s3, Awaiting) \<Rightarrow> (s3, Some (AwaitSpeak chunk t))
              | (s3, Returned u) \<Rightarrow> (s3, None)))"

definition body_start :: "env \<Rightarrow> string \<Rightarrow> state \<Rightarrow> state \<times> pending option" where
  "body_start e chunk s =
     (case translateWithGemini e chunk (setStatus ''Translating...'' s) of
        (s1, Awaiting) \<Rightarrow> (s1, Some (AwaitTranslate chunk))
      | (s1, Returned tr) \<Rightarrow> body_translated e chunk tr s1)"

definition resume_translate ::
  "env \<Rightarrow> string \<Rightarrow> string + string option \<Rightarrow> state \<Rightarrow> state \<times> pending option" where
  "resume_translate e chunk r s =
     (case translateWithGemini_resume r s of
        (s1, Inl msg) \<Rightarrow>
          (setStatus (''Error: '' @ msg) (emit (ConsoleError ''Process error'') s1), None)
      | (s1, Inr tr) \<Rightarrow> body_translated e chunk tr s1)"

definition resume_speak ::
  "env \<Rightarrow> string + part list option \<Rightarrow> state \<Rightarrow> state \<times> pending option" where
  "resume_speak e r s = (speakWithGemini_resume e r s, None)"

lemma translationQueue_body_translated [simp]:
  "translationQueue (fst (body_translated e chunk tr s)) = translationQueue s"
  by (simp add: body_translated_def speakWithGemini_def setStatus_def emit_def Let_def
      split: option.splits)

lemma translationQueue_body_start [simp]:
  "translationQueue (fst (body_start e chunk s)) = translationQueue s"
  by (simp add: body_start_def translateWithGemini_def setStatus_def emit_def
      body_translated_def)

text \<open>
  The \<open>while\<close> loop of \<open>processQueue\<close> from its head: it runs until an iteration
  suspends, or until the queue is empty, where it sets the status and clears the flag.
\<close>

function drain :: "env \<Rightarrow> state \<Rightarrow> state \<times> pending option" where
  "drain e s =
     (case translationQueue s of
        [] \<Rightarrow> ((setStatus ''Idle'' s)\<lparr>processingQueue := False\<rparr>, None)
      | chunk # rest \<Rightarrow>
          (let s1 = s\<lparr>translationQueue := rest\<rparr> in
           if chunk = [] then drain e s1
           else case body_start e chunk s1 of
                  (s2, Some p) \<Rightarrow> (s2, Some p)
                | (s2, None) \<Rightarrow> drain e s2))"
  by pat_completeness auto
termination
proof (relation "measure (\<lambda>(e, s). length (translationQueue s))", goal_cases)
  case 1
  show ?case by simp
next
  case 2
  then show ?case by simp
next
  case (3 e s chunk rest x s2 po)
  have "translationQueue (fst (body_start e chunk (s\<lparr>translationQueue := rest\<rparr>))) = rest"
    by simp
  with 3 have "translationQueue s2 = rest" by (metis fst_conv)
  with 3 show ?case by simp
qed

declare drain.simps [simp del]

text \<open>
  \<open>processQueue\<close> from its call to its first suspension or its end, and
  \<open>enqueueTranslation\<close>. A call that suspends joins the suspended calls.
\<close>

definition processQueue :: "env \<Rightarrow> state \<Rightarrow> state" where
  "processQueue e s =
     (if processingQueue s then s
      else case drain e (s\<lparr>processingQueue := True\<rparr>) of
             (s1, Some p) \<Rightarrow> s1\<lparr>loops := loops s1 @ [p]\<rparr>
           | (s1, None) \<Rightarrow> s1)"

definition enqueueTranslation :: "env \<Rightarrow> string \<Rightarrow> state \<Rightarrow> state" where
  "enqueueTranslation e text s =
     (if text = [] then s
      else (let s1 = s\<lparr>translationQueue := translationQueue s @ [text]\<rparr> in
            if \<not> processingQueue s1 then processQueue e s1 else s1))"

text \<open>
  The two callers of \<open>enqueueTranslation\<close>. One is the \<open>forEach\<close> of
  \<open>fetchZoomTranscript\<close> above, through its timers. The other is \<open>rec.onresult\<close>: its
  loop over the results from \<open>event.resultIndex\<close> on collects the final transcripts,
  each followed by a space, and the interim ones; then it appends the trimmed final
  chunk to the final transcript and enqueues it, or only shows the interim text. A
  result is given by \<open>res[0].transcript\<close> and \<open>res.isFinal\<close>; the two transcripts
  shown are state of their own, beside the state of the queue.
\<close>

record recognition_result =
  transcript :: string
  isFinal :: bool

record recognition_event =
  resultIndex :: nat
  results :: "recognition_result list"

record transcripts =
  finalTranscript :: string
  interimTranscript :: string

fun onresult_loop :: "recognition_result list \<Rightarrow> string \<times> string \<Rightarrow> string \<times> string" where
  "onresult_loop [] (finalChunk, interim) = (finalChunk, interim)"
| "onresult_loop (res # rest) (finalChunk, interim) =
     (if isFinal res then onresult_loop rest (finalChunk @ transcript res @ '' '', interim)
      else onresult_loop rest (finalChunk, interim @ transcript res))"

definition onresult ::
  "env \<Rightarrow> recognition_event \<Rightarrow> transcripts \<times> state \<Rightarrow> transcripts \<times> state" where
  "onresult e event ts =
     (case onresult_loop (drop (resultIndex event) (results event)) ([], []) of
        (finalChunk, interim) \<Rightarrow>
          if length (trim finalChunk) > 0 then
            ((fst ts)\<lparr>finalTranscript := finalTranscript (fst ts) @ trim finalChunk @ nl,
                      interimTranscript := []\<rparr>,
             enqueueTranslation e (trim finalChunk) (snd ts))
          else ((fst ts)\<lparr>interimTranscript := interim\<rparr>, snd ts))"

text \<open>
  The events of the event loop: a caller enqueues a text, or the network call of the
  \<open>i\<close>-th suspended \<open>processQueue\<close> call settles, rejected with an error (\<open>Inl\<close> of
  its message) or fulfilled with a response (\<open>Inr\<close> of its text, or of its parts, either
  of which may be missing). The suspended call goes on to the end of its iteration and
  round the loop; it suspends again or ends. An event that no suspended call waits for
  cannot happen: \<open>None\<close>. Enqueues and results may come in any order, which is how the
  latency of the two stages shows.
\<close>

datatype event =
    Enqueue string
  | TranslateDone nat "string + string option"
  | SpeakDone nat "string + part list option"

definition continue_loop :: "env \<Rightarrow> nat \<Rightarrow> state \<times> pending option \<Rightarrow> state" where
  "continue_loop e i r =
     (case r of
        (s1, Some p) \<Rightarrow> s1\<lparr>loops := (loops s1)[i := p]\<rparr>
      | (s1, None) \<Rightarrow>
          (case drain e s1 of
             (s2, Some p) \<Rightarrow> s2\<lparr>loops := (loops s2)[i := p]\<rparr>
           | (s2, None) \<Rightarrow> s2\<lparr>loops := take i (loops s2) @ drop (Suc i) (loops s2)\<rparr>))"

fun step :: "env \<Rightarrow> event \<Rightarrow> state \<Rightarrow> state option" where
  "step e (Enqueue text) s = Some (enqueueTranslation e text s)"
| "step e (TranslateDone i r) s =
     (if i < length (loops s) then
        (case loops s ! i of
           AwaitTranslate chunk \<Rightarrow> Some (continue_loop e i (resume_translate e chunk r s))
         | AwaitSpeak chunk t \<Rightarrow> None)
      else None)"
| "step e (SpeakDone i r) s =
     (if i < length (loops s) then
        (case loops s ! i of
           AwaitSpeak chunk t \<Rightarrow> Some (continue_loop e i (resume_speak e r s))
         | AwaitTranslate chunk \<Rightarrow> None)
      else None)"

fun run :: "env \<Rightarrow> event list \<Rightarrow> state \<Rightarrow> state option" where
  "run e [] s = Some s"
| "run e (ev # evs) s = (case step e ev s of None \<Rightarrow> None | Some s1 \<Rightarrow> run e evs s1)"

text \<open>The state at mount, and after \<open>initAudioStreamer\<close> has created the streamer.\<close>

definition init :: state where
  "init = \<lparr>translationQueue = [], processingQueue = False, translationItems = [],
           status = ''Ready'', audioStreamer = None, effects = [], loops = []\<rparr>"

definition started :: state where
  "started = init\<lparr>audioStreamer := Some []\<rparr>"

definition idle :: "state \<Rightarrow> bool" where
  "idle s \<longleftrightarrow> translationQueue s = [] \<and> \<not> processingQueue s \<and> loops s = []"

section \<open>Observations on runs of the queue\<close>

text \<open>
  What a list of events says without running it: the texts that \<open>enqueueTranslation\<close>
  accepts, in the order of the calls, and the results of the translation calls, in the
  order in which they settle.
\<close>

fun enqueued :: "event list \<Rightarrow> string list" where
  "enqueued [] = []"
| "enqueued (Enqueue text # evs) = (if text = [] then enqueued evs else text # enqueued evs)"
| "enqueued (_ # evs) = enqueued evs"

fun translate_results :: "event list \<Rightarrow> (string + string option) list" where
  "translate_results [] = []"
| "translate_results (TranslateDone i r # evs) = r # translate_results evs"
| "translate_results (_ # evs) = translate_results evs"

text \<open>
  The items that a list of chunks, each paired with the result of its translation call,
  gives: one for each response whose text is present and not empty after trimming, with
  the trimmed text; none for an error, a missing text or an empty one.
\<close>

fun produced :: "(string \<times> (string + string option)) list \<Rightarrow> TranslationItem list" where
  "produced [] = []"
| "produced ((chunk, Inr (Some t)) # xs) =
     (if trim t = [] then produced xs
      else \<lparr>source = chunk, translated = trim t\<rparr> # produced xs)"
| "produced (_ # xs) = produced xs"

fun fruitful :: "string + string option \<Rightarrow> bool" where
  "fruitful (Inr (Some t)) \<longleftrightarrow> trim t \<noteq> []"
| "fruitful _ \<longleftrightarrow> False"

text \<open>
  The chunks whose translation call is in flight, and the invariant of the flag: at most
  one suspended \<open>processQueue\<close> call, the flag set exactly while there is one, no empty
  chunk in the queue, and an empty queue whenever no call is suspended.
\<close>

fun awaiting_translate :: "pending list \<Rightarrow> string list" where
  "awaiting_translate [] = []"
| "awaiting_translate (AwaitTranslate chunk # ps) = chunk # awaiting_translate ps"
| "awaiting_translate (_ # ps) = awaiting_translate ps"

definition single_flight :: "state \<Rightarrow> bool" where
  "single_flight s \<longleftrightarrow>
     length (loops s) \<le> 1 \<and> processingQueue s = (loops s \<noteq> [])
     \<and> [] \<notin> set (translationQueue s) \<and> (loops s = [] \<longrightarrow> translationQueue s = [])"

text \<open>
  The texts of the speech calls among the effects, and the status updates of a queue
  drained without API key.
\<close>

fun speech_calls :: "effect list \<Rightarrow> string list" where
  "speech_calls [] = []"
| "speech_calls (NetworkCall (SpeechRequest t) # es) = t # speech_calls es"
| "speech_calls (_ # es) = speech_calls es"

definition keyless_statuses :: "string list \<Rightarrow> effect list" where
  "keyless_statuses q =
     concat (map (\<lambda>c. [SetStatus ''Translating...'', SetStatus ''Missing Gemini API Key''])
       (filter (\<lambda>c. c \<noteq> []) q))"

text \<open>
  In the words of the specification: the audio parts of a response are the inline data
  whose media type starts with \<open>audio\<close>, in the order of the response, and each is
  decoded to bytes. A part is sound when \<open>speakWithGemini\<close> gets past it without a
  throw: it has no inline data, or its inline data has a media type and, when that is
  audio, the decoder and the streamer take it.
\<close>

definition audio_parts :: "part list \<Rightarrow> blob list" where
  "audio_parts ps =
     List.map_filter
       (\<lambda>p. case inlineData p of
              None \<Rightarrow> None
            | Some d \<Rightarrow>
                (case mimeType d of
                   None \<Rightarrow> None
                 | Some m \<Rightarrow> if prefix ''audio'' m then Some d else None)) ps"

definition decoded :: "env \<Rightarrow> blob list \<Rightarrow> byte list list" where
  "decoded e ds = List.map_filter (\<lambda>d. base64ToArrayBuffer e (data d)) ds"

definition sound_part :: "env \<Rightarrow> part \<Rightarrow> bool" where
  "sound_part e p =
     (case inlineData p of
        None \<Rightarrow> True
      | Some d \<Rightarrow>
          (case mimeType d of
             None \<Rightarrow> False
           | Some m \<Rightarrow>
               if prefix ''audio'' m then
                 (case base64ToArrayBuffer e (data d) of
                    None \<Rightarrow> False
                  | Some buffer \<Rightarrow> addPCM16 e buffer)
               else True))"

text \<open>
  Concrete inputs for the examples: an environment with and one without API key (the
  decoder of the examples maps each character of a text that is there to its code, and
  the streamer takes every buffer), a response with two audio parts among four, a
  response whose second part has inline data without media type, between two audio
  parts, and two lists of events with the state the first one ends in.
\<close>

definition keyed :: env where
  "keyed = \<lparr>apiKey = ''key'',
             base64ToArrayBuffer = map_option (map (\<lambda>c. of_nat (of_char c))),
             addPCM16 = (\<lambda>buffer. True)\<rparr>"

definition keyless :: env where
  "keyless = \<lparr>apiKey = [],
               base64ToArrayBuffer = map_option (map (\<lambda>c. of_nat (of_char c))),
               addPCM16 = (\<lambda>buffer. True)\<rparr>"

definition example_parts :: "part list" where
  "example_parts =
     [\<lparr>inlineData = None\<rparr>,
      \<lparr>inlineData = Some \<lparr>mimeType = Some ''audio/L16;rate=24000'', data = Some ''AB''\<rparr>\<rparr>,
      \<lparr>inlineData = Some \<lparr>mimeType = Some ''text/plain'', data = Some ''CD''\<rparr>\<rparr>,
      \<lparr>inlineData = Some \<lparr>mimeType = Some ''audio/pcm'', data = Some ''E''\<rparr>\<rparr>]"

definition untyped_parts :: "part list" where
  "untyped_parts =
     [\<lparr>inlineData = Some \<lparr>mimeType = Some ''audio/pcm'', data = Some ''AB''\<rparr>\<rparr>,
      \<lparr>inlineData = Some \<lparr>mimeType = None, data = Some ''CD''\<rparr>\<rparr>,
      \<lparr>inlineData = Some \<lparr>mimeType = Some ''audio/pcm'', data = Some ''E''\<rparr>\<rparr>]"

text \<open>
  A recognition event whose results from its index on are one final and one interim
  transcript, and one whose only result is white space.
\<close>

definition example_recognition :: recognition_event where
  "example_recognition =
     \<lparr>resultIndex = 1,
      results = [\<lparr>transcript = ''old'', isFinal = True\<rparr>,
                 \<lparr>transcript = '' hello'', isFinal = True\<rparr>,
                 \<lparr>transcript = ''wor'', isFinal = False\<rparr>]\<rparr>"

definition blank_recognition :: recognition_event where
  "blank_recognition =
     \<lparr>resultIndex = 0, results = [\<lparr>transcript = ''  '', isFinal = True\<rparr>]\<rparr>"

definition example_events :: "event list" where
  "example_events =
     [Enqueue ''one'', Enqueue ''two'', TranslateDone 0 (Inr (Some '' uno '')),
      Enqueue [], Enqueue ''three'', SpeakDone 0 (Inr None),
      TranslateDone 0 (Inl ''503''), TranslateDone 0 (Inr (Some ''tres'')),
      SpeakDone 0 (Inl ''boom'')]"

definition example_final :: state where
  "example_final =
     started\<lparr>translationItems :=
         [\<lparr>source = ''one'', translated = ''uno''\<rparr>,
          \<lparr>source = ''three'', translated = ''tres''\<rparr>],
       status := ''Idle'',
       effects :=
         [SetStatus ''Translating...'', NetworkCall (TranslateRequest ''one''),
          SetStatus ''Speaking...'', NetworkCall (SpeechRequest ''uno''),
          SetStatus ''Translating...'', NetworkCall (TranslateRequest ''two''),
          ConsoleError ''Translation API error'', ConsoleError ''Process error'',
          SetStatus ''Error: 503'',
          SetStatus ''Translating...'', NetworkCall (TranslateRequest ''three''),
          SetStatus ''Speaking...'', NetworkCall (SpeechRequest ''tres''),
          ConsoleError ''TTS Error'', SetStatus ''Idle'']\<rparr>"

definition all_fruitful_events :: "event list" where
  "all_fruitful_events =
     [Enqueue ''one'', Enqueue ''two'', Enqueue ''three'',
      TranslateDone 0 (Inr (Some ''uno'')), SpeakDone 0 (Inr None),
      TranslateDone 0 (Inr (Some ''dos'')), Enqueue ''four'', SpeakDone 0 (Inl ''late''),
      TranslateDone 0 (Inr (Some ''tres'')), SpeakDone 0 (Inr (Some [])),
      TranslateDone 0 (Inr (Some ''cuatro'')), SpeakDone 0 (Inr None)]"

section \<open>Properties of \<open>parseVTT\<close>\<close>

lemma includes_str_iff: "includes_str s p \<longleftrightarrow> (\<exists>a b. s = a @ p @ b)"
proof (induction s)
  case Nil
  then show ?case by auto
next
  case (Cons c cs)
  show ?case
  proof
    assume "includes_str (c # cs) p"
    then consider "prefix p (c # cs)" | "includes_str cs p" by auto
    then show "\<exists>a b. c # cs = a @ p @ b"
    proof cases
      case 1
      then obtain b where "c # cs = p @ b" by (auto simp: prefix_def)
      then have "c # cs = [] @ p @ b" by simp
      then show ?thesis by blast
    next
      case 2
      with Cons obtain a b where "cs = a @ p @ b" by blast
      then have "c # cs = (c # a) @ p @ b" by simp
      then show ?thesis by blast
    qed
  next
    assume "\<exists>a b. c # cs = a @ p @ b"
    then obtain a b where ab: "c # cs = a @ p @ b" by blast
    show "includes_str (c # cs) p"
    proof (cases a)
      case Nil
      with ab have "prefix p (c # cs)" by (simp add: prefix_def)
      then show ?thesis by simp
    next
      case (Cons a0 as)
      with ab have "cs = as @ p @ b" by simp
      with Cons.IH have "includes_str cs p" by blast
      then show ?thesis by simp
    qed
  qed
qed

lemma all_digits_iff: "all_digits t \<longleftrightarrow> cue_index_line t"
  by (simp add: all_digits_def cue_index_line_def)

lemma parseVTT_loop_filter:
  "parseVTT_loop lines outp = outp @ filter (\<lambda>t. \<not> discarded t) (map trim lines)"
proof (induction lines arbitrary: outp)
  case Nil
  then show ?case by simp
next
  case (Cons line lines)
  show ?case
    by (simp add: Cons.IH Let_def discarded_def blank_line_def header_line_def note_line_def
        range_line_def startsWith_def includes_str_iff all_digits_iff)
qed

lemma split_chr_append:
  "split_chr sep cur (a @ sep # b) = split_chr sep cur a @ split_chr sep [] b"
  by (induction a arbitrary: cur) simp_all

lemma split_chr_no_sep: "sep \<notin> set a \<Longrightarrow> split_chr sep cur a = [rev cur @ a]"
  by (induction a arbitrary: cur) auto

text \<open>
  C7. \<open>parseVTT\<close> keeps, in order, exactly the trimmed lines that are neither blank, nor a
  header line, nor a note line, nor a pure-numeric cue index, nor a line containing the
  arrow \<open>-->\<close>, and joins them with single spaces; on the two-cue document of the
  specification it returns \<open>Hello there. How are you?\<close>.
\<close>

theorem parseVTT_spoken_lines:
  "parseVTT vtt = join '' '' (spoken_lines vtt)
   \<and> parseVTT example_vtt = ''Hello there. How are you?''"
proof
  show "parseVTT vtt = join '' '' (spoken_lines vtt)"
    by (simp add: parseVTT_def spoken_lines_def parseVTT_loop_filter)
  show "parseVTT example_vtt = ''Hello there. How are you?''"
    by code_simp
qed

section \<open>Properties of the sentence splitting\<close>

lemma forEach_sentence_enumerate:
  "forEach_sentence i us =
     map (\<lambda>(j, u). (j * 100, trim u)) (filter (\<lambda>(j, u). trim u \<noteq> []) (enumerate i us))"
  by (induction us arbitrary: i) simp_all

lemma split_sentences_not_Nil: "split_sentences lb cur cs \<noteq> []"
  by (induction lb cur cs rule: split_sentences.induct) simp_all

lemma filter_dropWhile_space:
  "filter (\<lambda>c. \<not> is_space c) (dropWhile is_space cs) = filter (\<lambda>c. \<not> is_space c) cs"
  by (induction cs) simp_all

lemma split_sentences_keeps_text:
  "filter (\<lambda>c. \<not> is_space c) (concat (split_sentences lb cur cs)) =
   filter (\<lambda>c. \<not> is_space c) (rev cur @ cs)"
  by (induction lb cur cs rule: split_sentences.induct) (simp_all add: filter_dropWhile_space)

lemma split_sentences_cut:
  "lb \<Longrightarrow> is_space c \<Longrightarrow>
   split_sentences lb cur (c # cs) = rev cur # split_sentences False [] (dropWhile is_space cs)"
  by simp

lemma split_sentences_go:
  "\<not> (lb \<and> is_space c) \<Longrightarrow>
   split_sentences lb cur (c # cs) = split_sentences (is_terminator c) (c # cur) cs"
  by auto

lemma split_sentences_ends:
  "lb \<longleftrightarrow> cur \<noteq> [] \<and> is_terminator (hd cur) \<Longrightarrow>
   list_all (\<lambda>u. u \<noteq> [] \<and> is_terminator (last u)) (butlast (split_sentences lb cur cs))"
proof (induction lb cur cs rule: split_sentences.induct)
  case (1 lb cur)
  show ?case by simp
next
  case (2 lb cur c cs)
  show ?case
  proof (cases "lb \<and> is_space c")
    case True
    with 2(3) have "cur \<noteq> []" "is_terminator (hd cur)" by simp_all
    then have a: "rev cur \<noteq> [] \<and> is_terminator (last (rev cur))" by (simp add: last_rev)
    have b: "list_all (\<lambda>u. u \<noteq> [] \<and> is_terminator (last u))
         (butlast (split_sentences False [] (dropWhile is_space cs)))"
      by (rule 2(1) [OF True]) simp
    from True have "split_sentences lb cur (c # cs) =
        rev cur # split_sentences False [] (dropWhile is_space cs)"
      by (simp add: split_sentences_cut)
    with a b show ?thesis by (simp add: split_sentences_not_Nil)
  next
    case False
    have "list_all (\<lambda>u. u \<noteq> [] \<and> is_terminator (last u))
        (butlast (split_sentences (is_terminator c) (c # cur) cs))"
      by (rule 2(2) [OF False]) simp
    then show ?thesis by (simp only: split_sentences_go [OF False])
  qed
qed

lemma has_break_snoc:
  "has_break (xs @ [d]) \<longleftrightarrow> has_break xs \<or> (xs \<noteq> [] \<and> is_terminator (last xs) \<and> is_space d)"
  by (induction xs rule: has_break.induct) auto

lemma split_sentences_no_break:
  "lb \<longleftrightarrow> cur \<noteq> [] \<and> is_terminator (hd cur) \<Longrightarrow> \<not> has_break (rev cur) \<Longrightarrow>
   list_all (\<lambda>u. \<not> has_break u) (split_sentences lb cur cs)"
proof (induction lb cur cs rule: split_sentences.induct)
  case (1 lb cur)
  then show ?case by simp
next
  case (2 lb cur c cs)
  show ?case
  proof (cases "lb \<and> is_space c")
    case True
    have "list_all (\<lambda>u. \<not> has_break u) (split_sentences False [] (dropWhile is_space cs))"
      by (rule 2(1) [OF True]) simp_all
    with True 2(4) show ?thesis by (simp add: split_sentences_cut)
  next
    case False
    with 2(3,4) have "\<not> has_break (rev (c # cur))"
      by (auto simp: has_break_snoc last_rev)
    then have "list_all (\<lambda>u. \<not> has_break u) (split_sentences (is_terminator c) (c # cur) cs)"
      by (intro 2(2) [OF False]) simp_all
    then show ?thesis by (simp only: split_sentences_go [OF False])
  qed
qed

lemma split_sentences_starts:
  "(if cur = [] then cs = [] \<or> \<not> is_space (hd cs) else \<not> is_space (last cur)) \<Longrightarrow>
   list_all (\<lambda>u. u = [] \<or> \<not> is_space (hd u)) (split_sentences lb cur cs)"
proof (induction lb cur cs rule: split_sentences.induct)
  case (1 lb cur)
  then show ?case by (cases "cur = []") (simp_all add: hd_rev)
next
  case (2 lb cur c cs)
  show ?case
  proof (cases "lb \<and> is_space c")
    case True
    with 2(3) have ne: "cur \<noteq> []" and "\<not> is_space (last cur)" by (auto split: if_splits)
    then have a: "rev cur = [] \<or> \<not> is_space (hd (rev cur))" by (simp add: hd_rev)
    have "dropWhile is_space cs = [] \<or> \<not> is_space (hd (dropWhile is_space cs))"
      by (metis hd_dropWhile)
    then have
      "list_all (\<lambda>u. u = [] \<or> \<not> is_space (hd u)) (split_sentences False [] (dropWhile is_space cs))"
      by (intro 2(1) [OF True]) simp
    with a True show ?thesis by (simp add: split_sentences_cut)
  next
    case False
    from 2(3) have "\<not> is_space (last (c # cur))" by (auto split: if_splits)
    then have
      "list_all (\<lambda>u. u = [] \<or> \<not> is_space (hd u)) (split_sentences (is_terminator c) (c # cur) cs)"
      by (intro 2(2) [OF False]) simp
    then show ?thesis by (simp only: split_sentences_go [OF False])
  qed
qed

lemma split_sentences_tl_starts:
  "list_all (\<lambda>u. u = [] \<or> \<not> is_space (hd u)) (tl (split_sentences lb cur cs))"
proof (induction lb cur cs rule: split_sentences.induct)
  case (1 lb cur)
  then show ?case by simp
next
  case (2 lb cur c cs)
  show ?case
  proof (cases "lb \<and> is_space c")
    case True
    have "dropWhile is_space cs = [] \<or> \<not> is_space (hd (dropWhile is_space cs))"
      by (metis hd_dropWhile)
    then have
      "list_all (\<lambda>u. u = [] \<or> \<not> is_space (hd u)) (split_sentences False [] (dropWhile is_space cs))"
      by (intro split_sentences_starts) simp
    with True show ?thesis by (simp add: split_sentences_cut)
  next
    case False
    from 2(2) [OF False] show ?thesis by (simp only: split_sentences_go [OF False])
  qed
qed

lemma has_break_appendI: "has_break xs \<Longrightarrow> has_break (xs @ ys)"
  by (induction xs rule: has_break.induct) auto

lemma split_sentences_scan:
  "lb = (cur \<noteq> [] \<and> is_terminator (hd cur)) \<Longrightarrow> \<not> has_break (rev cur @ u) \<Longrightarrow>
   split_sentences lb cur (u @ r) =
     split_sentences (rev u @ cur \<noteq> [] \<and> is_terminator (hd (rev u @ cur))) (rev u @ cur) r"
proof (induction u arbitrary: lb cur)
  case Nil
  then show ?case by simp
next
  case (Cons c u)
  from Cons.prems(2) have nb: "\<not> has_break (rev (c # cur) @ u)" by simp
  have "\<not> has_break (rev cur @ [c])"
  proof
    assume "has_break (rev cur @ [c])"
    then have "has_break ((rev cur @ [c]) @ u)" by (rule has_break_appendI)
    with Cons.prems(2) show False by simp
  qed
  with Cons.prems(1) have go: "\<not> (lb \<and> is_space c)"
    by (auto simp: has_break_snoc last_rev)
  have "split_sentences lb cur ((c # u) @ r) = split_sentences (is_terminator c) (c # cur) (u @ r)"
    using split_sentences_go [OF go] by simp
  also have "\<dots> = split_sentences (rev u @ c # cur \<noteq> [] \<and> is_terminator (hd (rev u @ c # cur)))
      (rev u @ c # cur) r"
    using nb by (intro Cons.IH) simp_all
  finally show ?case by simp
qed

lemma dropWhile_spaces_append:
  "list_all is_space w \<Longrightarrow> r = [] \<or> \<not> is_space (hd r) \<Longrightarrow> dropWhile is_space (w @ r) = r"
  by (induction w) (auto simp: dropWhile_eq_self_iff)

lemma sentence_split_unique:
  "sentence_split t us \<Longrightarrow> us = split_sentences False [] t"
proof (induction rule: sentence_split.induct)
  case (whole t)
  then have "split_sentences False [] (t @ []) =
      split_sentences (rev t @ [] \<noteq> [] \<and> is_terminator (hd (rev t @ []))) (rev t @ []) []"
    by (intro split_sentences_scan) simp_all
  then show ?case by simp
next
  case (cut u w rest us)
  from cut.hyps(4) obtain c w' where w: "w = c # w'" by (cases w) auto
  with cut.hyps(5) have c: "is_space c" and w': "list_all is_space w'" by simp_all
  from cut.hyps(1,2) have lb: "rev u @ [] \<noteq> [] \<and> is_terminator (hd (rev u @ []))"
    by (simp add: hd_rev)
  have "split_sentences False [] (u @ (w @ rest)) =
      split_sentences (rev u @ [] \<noteq> [] \<and> is_terminator (hd (rev u @ []))) (rev u @ []) (w @ rest)"
    using cut.hyps(3) by (intro split_sentences_scan) simp_all
  also have "\<dots> = split_sentences True (rev u) (c # w' @ rest)" using lb w by simp
  also have "\<dots> = rev (rev u) # split_sentences False [] (dropWhile is_space (w' @ rest))"
    using c by (simp add: split_sentences_cut)
  also have "dropWhile is_space (w' @ rest) = rest"
    using w' cut.hyps(6) by (rule dropWhile_spaces_append)
  finally show ?case using cut.IH by simp
qed

lemma split_sentences_sentence_split:
  "lb = (cur \<noteq> [] \<and> is_terminator (hd cur)) \<Longrightarrow> \<not> has_break (rev cur) \<Longrightarrow>
   sentence_split (rev cur @ cs) (split_sentences lb cur cs)"
proof (induction lb cur cs rule: split_sentences.induct)
  case (1 lb cur)
  then show ?case by (simp add: sentence_split.whole)
next
  case (2 lb cur c cs)
  show ?case
  proof (cases "lb \<and> is_space c")
    case True
    let ?w = "c # takeWhile is_space cs" and ?rest = "dropWhile is_space cs"
    have r: "sentence_split ?rest (split_sentences False [] ?rest)"
      using 2(1) [OF True] by simp
    from True 2(3) have u: "rev cur \<noteq> []" "is_terminator (last (rev cur))"
      by (simp_all add: last_rev)
    have sp: "list_all is_space ?w" using True by (simp add: list_all_iff) (meson set_takeWhileD)
    have hd: "?rest = [] \<or> \<not> is_space (hd ?rest)" by (metis hd_dropWhile)
    have "sentence_split (rev cur @ ?w @ ?rest) (rev cur # split_sentences False [] ?rest)"
      using u 2(4) _ sp hd r by (rule sentence_split.cut) simp
    moreover have "rev cur @ ?w @ ?rest = rev cur @ c # cs" by simp
    ultimately show ?thesis using True by (simp add: split_sentences_cut)
  next
    case False
    with 2(3,4) have "\<not> has_break (rev (c # cur))"
      by (auto simp: has_break_snoc last_rev)
    then have "sentence_split (rev (c # cur) @ cs) (split_sentences (is_terminator c) (c # cur) cs)"
      by (intro 2(2) [OF False]) simp_all
    then show ?thesis by (simp del: split_sentences.simps add: split_sentences_go [OF False])
  qed
qed

lemma sentence_split_iff: "sentence_split t us \<longleftrightarrow> us = sentences t"
proof
  assume "sentence_split t us"
  then show "us = sentences t" unfolding sentences_def by (rule sentence_split_unique)
next
  assume "us = sentences t"
  moreover have "sentence_split (rev [] @ t) (split_sentences False [] t)"
    by (rule split_sentences_sentence_split) simp_all
  ultimately show "sentence_split t us" by (simp add: sentences_def)
qed

lemma dropWhile_id: "xs = [] \<or> \<not> P (hd xs) \<Longrightarrow> dropWhile P xs = xs"
  by (cases xs) auto

lemma trim_trim: "trim (trim x) = trim x"
proof -
  let ?a = "dropWhile is_space x"
  let ?b = "rev (dropWhile is_space (rev ?a))"
  have a: "?a = [] \<or> \<not> is_space (hd ?a)" by (metis hd_dropWhile)
  have "?a = ?b @ rev (takeWhile is_space (rev ?a))"
    by (metis rev_append rev_rev_ident takeWhile_dropWhile_id)
  then have "?b \<noteq> [] \<Longrightarrow> hd ?b = hd ?a" by (metis hd_append2)
  moreover have "?b \<noteq> [] \<Longrightarrow> ?a \<noteq> []"
  proof
    assume "?b \<noteq> []" and "?a = []"
    then show False by (simp only: rev.simps dropWhile.simps)
  qed
  ultimately have "?b = [] \<or> \<not> is_space (hd ?b)" using a by metis
  then have "dropWhile is_space ?b = ?b" by (rule dropWhile_id)
  moreover have "dropWhile is_space (rev ?b) = rev ?b" by simp
  ultimately show ?thesis by (simp add: trim_def)
qed

lemma forEach_sentence_trimmed:
  "list_all (\<lambda>(delay, x). x \<noteq> [] \<and> trim x = x) (forEach_sentence i us)"
  by (induction us arbitrary: i) (simp_all add: trim_trim)

text \<open>
  C8. The sentences of a text are exactly what the specification's split gives: the text
  is cut after every \<open>.\<close>, \<open>!\<close> or \<open>?\<close> that is followed by white space, and nowhere
  else, and the whole run of white space is dropped. The timers that
  \<open>fetchZoomTranscript\<close> registers are, in order, one for each sentence that is non-empty
  after trimming, with the trimmed sentence as the text to enqueue and 100 ms times the
  index of the sentence as delay; a sentence that is empty after trimming gets none, and
  every text enqueued is non-empty and trimmed. So every sentence but the last ends with
  a terminator, every sentence after the first starts behind the white space, no
  sentence contains a terminator followed by white space, and nothing but white space is
  dropped.
\<close>

theorem zoom_timers_sentences:
  "zoom_timers cleanText =
     map (\<lambda>(index, u). (index * 100, trim u))
       (filter (\<lambda>(index, u). trim u \<noteq> []) (enumerate 0 (sentences cleanText)))
   \<and> (sentence_split cleanText us \<longleftrightarrow> us = sentences cleanText)
   \<and> list_all (\<lambda>(delay, y). y \<noteq> [] \<and> trim y = y) (zoom_timers cleanText)
   \<and> list_all (\<lambda>u. u \<noteq> [] \<and> is_terminator (last u)) (butlast (sentences cleanText))
   \<and> list_all (\<lambda>u. u = [] \<or> \<not> is_space (hd u)) (tl (sentences cleanText))
   \<and> list_all (\<lambda>u. \<not> has_break u) (sentences cleanText)
   \<and> filter (\<lambda>c. \<not> is_space c) (concat (sentences cleanText)) =
       filter (\<lambda>c. \<not> is_space c) cleanText"
proof (intro conjI)
  show "zoom_timers cleanText =
     map (\<lambda>(index, u). (index * 100, trim u))
       (filter (\<lambda>(index, u). trim u \<noteq> []) (enumerate 0 (sentences cleanText)))"
    by (simp add: zoom_timers_def forEach_sentence_enumerate)
  show "sentence_split cleanText us \<longleftrightarrow> us = sentences cleanText"
    by (rule sentence_split_iff)
  show "list_all (\<lambda>(delay, y). y \<noteq> [] \<and> trim y = y) (zoom_timers cleanText)"
    unfolding zoom_timers_def by (rule forEach_sentence_trimmed)
  show "list_all (\<lambda>u. u \<noteq> [] \<and> is_terminator (last u)) (butlast (sentences cleanText))"
    unfolding sentences_def by (rule split_sentences_ends) simp
  show "list_all (\<lambda>u. u = [] \<or> \<not> is_space (hd u)) (tl (sentences cleanText))"
    unfolding sentences_def by (rule split_sentences_tl_starts)
  show "list_all (\<lambda>u. \<not> has_break u) (sentences cleanText)"
    unfolding sentences_def by (rule split_sentences_no_break) simp_all
  show "filter (\<lambda>c. \<not> is_space c) (concat (sentences cleanText)) =
       filter (\<lambda>c. \<not> is_space c) cleanText"
    by (simp add: sentences_def split_sentences_keeps_text)
qed

text \<open>
  A text with a double space and a trailing one; and a text with a terminator inside a
  version number, which is cut once: cutting after every terminator, cutting nowhere and
  dropping the white space are all refused.
\<close>

theorem zoom_timers_sentences_witness:
  "sentences ''Go.  Stop! Why?now. '' = [''Go.'', ''Stop!'', ''Why?now.'', []]
   \<and> sentence_split ''Go.  Stop! Why?now. '' [''Go.'', ''Stop!'', ''Why?now.'', []]
   \<and> zoom_timers ''Go.  Stop! Why?now. '' = [(0, ''Go.''), (100, ''Stop!''), (200, ''Why?now.'')]
   \<and> sentence_split ''Thanks v1.2 is out. Bye'' [''Thanks v1.2 is out.'', ''Bye'']
   \<and> \<not> sentence_split ''Thanks v1.2 is out. Bye'' [''Thanks v1.'', ''2 is out.'', ''Bye'']
   \<and> \<not> sentence_split ''Thanks v1.2 is out. Bye'' [''Thanksv1.2isout.Bye'']
   \<and> \<not> sentence_split ''Thanks v1.2 is out. Bye'' [''Thanks v1.2 is out. Bye'']"
proof -
  have a: "sentences ''Go.  Stop! Why?now. '' = [''Go.'', ''Stop!'', ''Why?now.'', []]"
    by code_simp
  have b: "zoom_timers ''Go.  Stop! Why?now. '' = [(0, ''Go.''), (100, ''Stop!''), (200, ''Why?now.'')]"
    by code_simp
  have c: "sentences ''Thanks v1.2 is out. Bye'' = [''Thanks v1.2 is out.'', ''Bye'']"
    by code_simp
  have 1: "sentence_split ''Go.  Stop! Why?now. '' [''Go.'', ''Stop!'', ''Why?now.'', []]"
    using zoom_timers_sentences [THEN conjunct2, THEN conjunct1,
        of "''Go.  Stop! Why?now. ''" "[''Go.'', ''Stop!'', ''Why?now.'', []]"] a
    by simp
  have 2: "sentence_split ''Thanks v1.2 is out. Bye'' [''Thanks v1.2 is out.'', ''Bye'']"
    using zoom_timers_sentences [THEN conjunct2, THEN conjunct1,
        of "''Thanks v1.2 is out. Bye''" "[''Thanks v1.2 is out.'', ''Bye'']"] c
    by simp
  have 3: "\<not> sentence_split ''Thanks v1.2 is out. Bye'' [''Thanks v1.'', ''2 is out.'', ''Bye'']"
    using zoom_timers_sentences [THEN conjunct2, THEN conjunct1,
        of "''Thanks v1.2 is out. Bye''" "[''Thanks v1.'', ''2 is out.'', ''Bye'']"] c
    by simp
  have 4: "\<not> sentence_split ''Thanks v1.2 is out. Bye'' [''Thanksv1.2isout.Bye'']"
    using zoom_timers_sentences [THEN conjunct2, THEN conjunct1,
        of "''Thanks v1.2 is out. Bye''" "[''Thanksv1.2isout.Bye'']"] c
    by simp
  have 5: "\<not> sentence_split ''Thanks v1.2 is out. Bye'' [''Thanks v1.2 is out. Bye'']"
    using zoom_timers_sentences [THEN conjunct2, THEN conjunct1,
        of "''Thanks v1.2 is out. Bye''" "[''Thanks v1.2 is out. Bye'']"] c
    by simp
  from a b 1 2 3 4 5 show ?thesis by simp
qed

section \<open>Lines discarded by shape\<close>

lemma split_lines_append: "split_lines (a @ nl @ b) = split_lines a @ split_lines b"
  by (simp add: split_lines_def nl_def split_chr_append)

lemma split_lines_single: "CHR 0x0A \<notin> set line \<Longrightarrow> split_lines line = [line]"
  by (simp add: split_lines_def split_chr_no_sep)

lemma parseVTT_filter: "parseVTT vtt = join '' '' (filter (\<lambda>t. \<not> discarded t) (map trim (split_lines vtt)))"
  by (simp add: parseVTT_def parseVTT_loop_filter)

text \<open>
  C10. \<open>parseVTT\<close> decides by the shape of a line alone: a line whose trimmed content
  is purely numeric, or starts with \<open>WEBVTT\<close> or \<open>NOTE\<close>, adds nothing to the
  result wherever it stands, spoken text or not. The document with the line reads the
  same as the document without it.
\<close>

theorem parseVTT_shape_only:
  assumes "CHR 0x0A \<notin> set line"
    and "all_digits (trim line) \<or> startsWith (trim line) ''WEBVTT'' \<or> startsWith (trim line) ''NOTE''"
  shows "parseVTT (pre @ nl @ line @ nl @ post) = parseVTT (pre @ nl @ post)
       \<and> parseVTT (pre @ nl @ line) = parseVTT pre
       \<and> parseVTT (line @ nl @ post) = parseVTT post
       \<and> parseVTT line = []"
proof -
  from assms(2) have "discarded (trim line)"
    by (auto simp: discarded_def all_digits_iff startsWith_def header_line_def note_line_def)
  with assms(1) show ?thesis
    by (simp add: parseVTT_filter split_lines_append split_lines_single)
qed

text \<open>A cue whose spoken line is \<open>42\<close>, and a spoken line that begins with \<open>NOTE\<close>.\<close>

theorem parseVTT_shape_only_witness:
  "CHR 0x0A \<notin> set ''42''
   \<and> all_digits (trim ''42'')
   \<and> startsWith (trim ''NOTE to self: call home'') ''NOTE''
   \<and> parseVTT (''7'' @ nl @ ''00:00:01.000 --> 00:00:02.000'' @ nl @ ''42'') = []
   \<and> parseVTT (''NOTE to self: call home'' @ nl @ ''Bye.'') = ''Bye.''"
proof -
  have a: "CHR 0x0A \<notin> set ''42''" by simp
  have b: "all_digits (trim ''42'')" by code_simp
  have c: "CHR 0x0A \<notin> set ''NOTE to self: call home''" by simp
  have d: "startsWith (trim ''NOTE to self: call home'') ''NOTE''" by code_simp
  have e: "parseVTT (''7'' @ nl @ ''00:00:01.000 --> 00:00:02.000'') = []" by code_simp
  have f: "parseVTT ''Bye.'' = ''Bye.''" by code_simp
  from parseVTT_shape_only [OF a, of "''7'' @ nl @ ''00:00:01.000 --> 00:00:02.000''"] b e
  have 1: "parseVTT (''7'' @ nl @ ''00:00:01.000 --> 00:00:02.000'' @ nl @ ''42'') = []"
    by simp
  from parseVTT_shape_only [OF c, of _ "''Bye.''"] d f
  have 2: "parseVTT (''NOTE to self: call home'' @ nl @ ''Bye.'') = ''Bye.''"
    by simp
  from a b d 1 2 show ?thesis by simp
qed

section \<open>The drain loop, one round at a time\<close>

lemma drain_Nil:
  "translationQueue s = [] \<Longrightarrow>
   drain e s = ((setStatus ''Idle'' s)\<lparr>processingQueue := False\<rparr>, None)"
  by (simp add: drain.simps [of e s])

lemma drain_Cons_key:
  "apiKey e \<noteq> [] \<Longrightarrow> translationQueue s = c # rest \<Longrightarrow> c \<noteq> [] \<Longrightarrow>
   drain e s =
     (emit (NetworkCall (TranslateRequest c))
        (setStatus ''Translating...'' (s\<lparr>translationQueue := rest\<rparr>)),
      Some (AwaitTranslate c))"
  by (simp add: drain.simps [of e s] body_start_def translateWithGemini_def)

lemma drain_Cons_empty:
  "translationQueue s = [] # rest \<Longrightarrow> drain e s = drain e (s\<lparr>translationQueue := rest\<rparr>)"
  by (simp add: drain.simps [of e s])

lemma drain_Cons_keyless:
  "apiKey e = [] \<Longrightarrow> translationQueue s = c # rest \<Longrightarrow> c \<noteq> [] \<Longrightarrow>
   drain e s =
     drain e (setStatus ''Missing Gemini API Key''
       (setStatus ''Translating...'' (s\<lparr>translationQueue := rest\<rparr>)))"
  by (simp add: drain.simps [of e s] body_start_def translateWithGemini_def body_translated_def)

lemma drain_keyless:
  "apiKey e = [] \<Longrightarrow> translationQueue s = q \<Longrightarrow>
   drain e s =
     (s\<lparr>translationQueue := [], processingQueue := False, status := ''Idle'',
        effects := effects s @ keyless_statuses q @ [SetStatus ''Idle'']\<rparr>, None)"
proof (induction q arbitrary: s)
  case Nil
  then show ?case by (simp add: drain_Nil setStatus_def keyless_statuses_def)
next
  case (Cons c rest)
  show ?case
  proof (cases "c = []")
    case True
    with Cons.prems have "drain e s = drain e (s\<lparr>translationQueue := rest\<rparr>)"
      by (simp add: drain_Cons_empty)
    also have "\<dots> = ((s\<lparr>translationQueue := rest\<rparr>)\<lparr>translationQueue := [], processingQueue := False,
        status := ''Idle'',
        effects := effects (s\<lparr>translationQueue := rest\<rparr>) @ keyless_statuses rest @ [SetStatus ''Idle'']\<rparr>, None)"
      by (rule Cons.IH) (use Cons.prems in simp_all)
    finally show ?thesis using True by (simp add: keyless_statuses_def)
  next
    case False
    let ?s1 = "setStatus ''Missing Gemini API Key''
       (setStatus ''Translating...'' (s\<lparr>translationQueue := rest\<rparr>))"
    from False Cons.prems have "drain e s = drain e ?s1"
      by (simp add: drain_Cons_keyless)
    also have "\<dots> = (?s1\<lparr>translationQueue := [], processingQueue := False,
        status := ''Idle'',
        effects := effects ?s1 @ keyless_statuses rest @ [SetStatus ''Idle'']\<rparr>, None)"
      by (rule Cons.IH) (use Cons.prems in \<open>simp_all add: setStatus_def\<close>)
    finally show ?thesis using False by (simp add: keyless_statuses_def setStatus_def)
  qed
qed

lemma speech_calls_append: "speech_calls (a @ b) = speech_calls a @ speech_calls b"
  by (induction a rule: speech_calls.induct) simp_all

lemma drain_preserves:
  "translationQueue s = q \<Longrightarrow>
   translationItems (fst (drain e s)) = translationItems s
   \<and> speech_calls (effects (fst (drain e s))) = speech_calls (effects s)
   \<and> audioStreamer (fst (drain e s)) = audioStreamer s
   \<and> loops (fst (drain e s)) = loops s"
proof (induction q arbitrary: s)
  case Nil
  then show ?case by (simp add: drain_Nil setStatus_def speech_calls_append)
next
  case (Cons c rest)
  consider "c = []" | "c \<noteq> []" "apiKey e = []" | "c \<noteq> []" "apiKey e \<noteq> []" by blast
  then show ?case
  proof cases
    case 1
    with Cons.prems have "drain e s = drain e (s\<lparr>translationQueue := rest\<rparr>)"
      by (simp add: drain_Cons_empty)
    moreover have "translationQueue (s\<lparr>translationQueue := rest\<rparr>) = rest" by simp
    ultimately show ?thesis using Cons.IH [of "s\<lparr>translationQueue := rest\<rparr>"] by simp
  next
    case 2
    let ?s1 = "setStatus ''Missing Gemini API Key''
       (setStatus ''Translating...'' (s\<lparr>translationQueue := rest\<rparr>))"
    from 2 Cons.prems have "drain e s = drain e ?s1" by (simp add: drain_Cons_keyless)
    moreover have "translationQueue ?s1 = rest" by (simp add: setStatus_def)
    ultimately show ?thesis using Cons.IH [of ?s1]
      by (simp add: setStatus_def speech_calls_append)
  next
    case 3
    with Cons.prems show ?thesis
      by (simp add: drain_Cons_key setStatus_def emit_def speech_calls_append)
  qed
qed

lemma continue_loop_done_preserves:
  "translationItems (continue_loop e i (s, None)) = translationItems s
   \<and> speech_calls (effects (continue_loop e i (s, None))) = speech_calls (effects s)
   \<and> audioStreamer (continue_loop e i (s, None)) = audioStreamer s"
proof -
  obtain s2 po where d: "drain e s = (s2, po)" by (cases "drain e s")
  with drain_preserves [where e = e and s = s, OF refl] have
    "translationItems s2 = translationItems s"
    "speech_calls (effects s2) = speech_calls (effects s)"
    "audioStreamer s2 = audioStreamer s"
    by simp_all
  with d show ?thesis by (cases po) (simp_all add: continue_loop_def)
qed

lemma drain_shape:
  "translationQueue s = q \<Longrightarrow>
   (case drain e s of
      (s1, None) \<Rightarrow> \<not> processingQueue s1 \<and> translationQueue s1 = []
    | (s1, Some p) \<Rightarrow>
        processingQueue s1 = processingQueue s \<and> set (translationQueue s1) \<subseteq> set q)"
proof (induction q arbitrary: s)
  case Nil
  then show ?case by (simp add: drain_Nil setStatus_def)
next
  case (Cons c rest)
  consider "c = []" | "c \<noteq> []" "apiKey e = []" | "c \<noteq> []" "apiKey e \<noteq> []" by blast
  then show ?case
  proof cases
    case 1
    with Cons.prems have "drain e s = drain e (s\<lparr>translationQueue := rest\<rparr>)"
      by (simp add: drain_Cons_empty)
    moreover have "translationQueue (s\<lparr>translationQueue := rest\<rparr>) = rest" by simp
    ultimately show ?thesis using Cons.IH [of "s\<lparr>translationQueue := rest\<rparr>"]
      by (auto split: prod.splits option.splits)
  next
    case 2
    let ?s1 = "setStatus ''Missing Gemini API Key''
       (setStatus ''Translating...'' (s\<lparr>translationQueue := rest\<rparr>))"
    from 2 Cons.prems have "drain e s = drain e ?s1" by (simp add: drain_Cons_keyless)
    moreover have "translationQueue ?s1 = rest" by (simp add: setStatus_def)
    ultimately show ?thesis using Cons.IH [of ?s1]
      by (auto simp: setStatus_def split: prod.splits option.splits)
  next
    case 3
    with Cons.prems show ?thesis
      by (auto simp: drain_Cons_key setStatus_def emit_def)
  qed
qed

lemma idle_started: "idle started"
  by code_simp

lemma run_example_events: "run keyed example_events started = Some example_final"
  by code_simp

section \<open>The path without API key\<close>

text \<open>
  C4. Without API key, \<open>translateWithGemini\<close> makes no network call, sets the status
  to \<open>Missing Gemini API Key\<close> and returns null; the iteration of \<open>processQueue\<close> for
  the chunk ends there, with no speech call and no item appended; and \<open>processQueue\<close>
  goes through every chunk of the queue in this way and ends with the queue empty, the
  flag clear and the status \<open>Idle\<close>, all in one go.
\<close>

theorem missing_key_path:
  assumes "apiKey e = []"
  shows "translateWithGemini e text s = (setStatus ''Missing Gemini API Key'' s, Returned None)
    \<and> body_start e text s =
        (setStatus ''Missing Gemini API Key'' (setStatus ''Translating...'' s), None)
    \<and> (\<not> processingQueue s \<longrightarrow>
        processQueue e s =
          s\<lparr>translationQueue := [], status := ''Idle'',
            effects := effects s @ keyless_statuses (translationQueue s) @ [SetStatus ''Idle'']\<rparr>)"
proof (intro conjI impI)
  show "translateWithGemini e text s = (setStatus ''Missing Gemini API Key'' s, Returned None)"
    using assms by (simp add: translateWithGemini_def)
  then show "body_start e text s =
        (setStatus ''Missing Gemini API Key'' (setStatus ''Translating...'' s), None)"
    using assms by (simp add: body_start_def translateWithGemini_def body_translated_def)
  assume "\<not> processingQueue s"
  then show "processQueue e s =
          s\<lparr>translationQueue := [], status := ''Idle'',
            effects := effects s @ keyless_statuses (translationQueue s) @ [SetStatus ''Idle'']\<rparr>"
    using assms by (simp add: processQueue_def drain_keyless [OF assms refl])
qed

text \<open>
  Enqueueing \<open>hello\<close> without API key: three status updates, no network call.
\<close>

theorem missing_key_path_witness:
  "apiKey keyless = []
   \<and> run keyless [Enqueue ''hello''] init =
       Some (init\<lparr>status := ''Idle'',
         effects := [SetStatus ''Translating...'', SetStatus ''Missing Gemini API Key'',
                     SetStatus ''Idle'']\<rparr>)"
proof -
  have k: "apiKey keyless = []" by (simp add: keyless_def)
  let ?s = "init\<lparr>translationQueue := [''hello'']\<rparr>"
  have "\<not> processingQueue ?s" by (simp add: init_def)
  with missing_key_path [OF k, of _ ?s] have
    "processQueue keyless ?s =
       ?s\<lparr>translationQueue := [], status := ''Idle'',
            effects := effects ?s @ keyless_statuses (translationQueue ?s) @ [SetStatus ''Idle'']\<rparr>"
    by blast
  then have "processQueue keyless ?s =
       init\<lparr>status := ''Idle'',
         effects := [SetStatus ''Translating...'', SetStatus ''Missing Gemini API Key'',
                     SetStatus ''Idle'']\<rparr>"
    by (simp add: init_def keyless_statuses_def)
  then have "enqueueTranslation keyless ''hello'' init =
       init\<lparr>status := ''Idle'',
         effects := [SetStatus ''Translating...'', SetStatus ''Missing Gemini API Key'',
                     SetStatus ''Idle'']\<rparr>"
    by (simp add: enqueueTranslation_def init_def)
  with k show ?thesis by simp
qed

section \<open>Empty translations\<close>

text \<open>
  C9. When the response of the translation call has no text, or a text that is empty
  after trimming, \<open>translateWithGemini\<close> returns null: the iteration ends with the state
  as it was and the loop goes round, as it does without API key; on the way to the next
  suspension or the end of the loop no item is appended, no speech call is made and
  nothing is passed to the streamer.
\<close>

theorem empty_translation_skipped:
  assumes "i < length (loops s)" and "loops s ! i = AwaitTranslate chunk"
    and "case resp of None \<Rightarrow> True | Some t \<Rightarrow> trim t = []"
  shows "translateWithGemini_resume (Inr resp) s = (s, Inr None)
    \<and> step e (TranslateDone i (Inr resp)) s = Some (continue_loop e i (s, None))
    \<and> translationItems (continue_loop e i (s, None)) = translationItems s
    \<and> speech_calls (effects (continue_loop e i (s, None))) = speech_calls (effects s)
    \<and> audioStreamer (continue_loop e i (s, None)) = audioStreamer s"
proof -
  from assms(3) have r: "translateWithGemini_resume (Inr resp) s = (s, Inr None)"
    by (cases resp) (simp_all add: translateWithGemini_resume_def)
  then have "resume_translate e chunk (Inr resp) s = (s, None)"
    by (simp add: resume_translate_def body_translated_def)
  with assms(1,2) have "step e (TranslateDone i (Inr resp)) s = Some (continue_loop e i (s, None))"
    by simp
  with r show ?thesis by (simp add: continue_loop_done_preserves)
qed

text \<open>
  Two chunks, the first translated to white space: the loop is at the second.
\<close>

theorem empty_translation_skipped_witness:
  "run keyed [Enqueue ''a'', Enqueue ''b'', TranslateDone 0 (Inr (Some ''  ''))] started =
     Some (started\<lparr>processingQueue := True, status := ''Translating...'',
       effects := [SetStatus ''Translating...'', NetworkCall (TranslateRequest ''a''),
                   SetStatus ''Translating...'', NetworkCall (TranslateRequest ''b'')],
       loops := [AwaitTranslate ''b'']\<rparr>)"
proof -
  let ?s = "started\<lparr>translationQueue := [''b''], processingQueue := True,
       status := ''Translating...'',
       effects := [SetStatus ''Translating...'', NetworkCall (TranslateRequest ''a'')],
       loops := [AwaitTranslate ''a'']\<rparr>"
  have k: "apiKey keyed \<noteq> []" by (simp add: keyed_def)
  have 1: "run keyed [Enqueue ''a'', Enqueue ''b''] started = Some ?s"
    by (simp add: enqueueTranslation_def processQueue_def started_def init_def
        drain_Cons_key [OF k] setStatus_def emit_def)
  have t: "trim ''  '' = []" by code_simp
  have 2: "step keyed (TranslateDone 0 (Inr (Some ''  ''))) ?s = Some (continue_loop keyed 0 (?s, None))"
    using empty_translation_skipped [of 0 ?s "''a''" "Some ''  ''" keyed] t by simp
  have 3: "continue_loop keyed 0 (?s, None) = started\<lparr>processingQueue := True, status := ''Translating...'',
       effects := [SetStatus ''Translating...'', NetworkCall (TranslateRequest ''a''),
                   SetStatus ''Translating...'', NetworkCall (TranslateRequest ''b'')],
       loops := [AwaitTranslate ''b'']\<rparr>"
    by (simp add: continue_loop_def drain_Cons_key [OF k] setStatus_def emit_def started_def init_def)
  have "run keyed [Enqueue ''a'', Enqueue ''b'', TranslateDone 0 (Inr (Some ''  ''))] started
      = (case run keyed [Enqueue ''a'', Enqueue ''b''] started of None \<Rightarrow> None
         | Some s1 \<Rightarrow> step keyed (TranslateDone 0 (Inr (Some ''  ''))) s1)"
    by (simp split: option.splits)
  with 1 2 3 show ?thesis by simp
qed

section \<open>Audio parts of a speech response\<close>

lemma speak_parts_frame:
  "\<exists>q. speak_parts e ps s = Normal (s\<lparr>audioStreamer := q\<rparr>)
     \<or> speak_parts e ps s = Thrown (s\<lparr>audioStreamer := q\<rparr>)"
proof (induction ps arbitrary: s)
  case Nil
  have "s = s\<lparr>audioStreamer := audioStreamer s\<rparr>" by simp
  then show ?case by (metis speak_parts.simps(1))
next
  case (Cons p ps)
  have same: "\<exists>q. Thrown s = Thrown (s\<lparr>audioStreamer := q\<rparr>)"
    by (rule exI [of _ "audioStreamer s"]) simp
  show ?case
  proof (cases "inlineData p")
    case None
    with Cons.IH [of s] show ?thesis by simp
  next
    case d: (Some d)
    show ?thesis
    proof (cases "mimeType d")
      case None
      with d same show ?thesis by simp
    next
      case m: (Some m)
      show ?thesis
      proof (cases "startsWith m ''audio''")
        case False
        with d m Cons.IH [of s] show ?thesis by simp
      next
        case True
        show ?thesis
        proof (cases "base64ToArrayBuffer e (data d)")
          case None
          with d m True same show ?thesis by simp
        next
          case b: (Some buffer)
          show ?thesis
          proof (cases "audioStreamer s")
            case None
            with d m True b Cons.IH [of s] show ?thesis by simp
          next
            case q: (Some q)
            let ?s1 = "s\<lparr>audioStreamer := Some (q @ [buffer])\<rparr>"
            show ?thesis
            proof (cases "addPCM16 e buffer")
              case False
              with d m True b q show ?thesis by (simp add: Let_def) blast
            next
              case ok: True
              from Cons.IH [of ?s1] obtain q1 where
                "speak_parts e ps ?s1 = Normal (?s1\<lparr>audioStreamer := q1\<rparr>)
                 \<or> speak_parts e ps ?s1 = Thrown (?s1\<lparr>audioStreamer := q1\<rparr>)"
                by blast
              then have "speak_parts e ps ?s1 = Normal (s\<lparr>audioStreamer := q1\<rparr>)
                 \<or> speak_parts e ps ?s1 = Thrown (s\<lparr>audioStreamer := q1\<rparr>)"
                by simp
              with d m True b q ok show ?thesis by (simp add: Let_def) blast
            qed
          qed
        qed
      qed
    qed
  qed
qed

lemma speakWithGemini_resume_frame:
  "translationQueue (speakWithGemini_resume e r s) = translationQueue s
   \<and> processingQueue (speakWithGemini_resume e r s) = processingQueue s
   \<and> loops (speakWithGemini_resume e r s) = loops s
   \<and> translationItems (speakWithGemini_resume e r s) = translationItems s"
proof (cases r)
  case (Inl msg)
  then show ?thesis by (simp add: speakWithGemini_resume_def emit_def)
next
  case (Inr resp)
  show ?thesis
  proof (cases resp)
    case None
    with Inr show ?thesis by (simp add: speakWithGemini_resume_def)
  next
    case (Some ps)
    from speak_parts_frame [of e ps s] obtain q where
      "speak_parts e ps s = Normal (s\<lparr>audioStreamer := q\<rparr>)
       \<or> speak_parts e ps s = Thrown (s\<lparr>audioStreamer := q\<rparr>)"
      by blast
    with Inr Some show ?thesis by (auto simp: speakWithGemini_resume_def emit_def)
  qed
qed

text \<open>
  On a response all of whose parts are sound the loop ends normally, and the streamer,
  when there is one, has received the decoded audio parts, in order, and nothing else.
\<close>

lemma speak_parts_sound:
  "list_all (sound_part e) ps \<Longrightarrow>
   speak_parts e ps s =
     Normal (s\<lparr>audioStreamer :=
         map_option (\<lambda>q. q @ decoded e (audio_parts ps)) (audioStreamer s)\<rparr>)"
proof (induction ps arbitrary: s)
  case Nil
  show ?case by (simp add: audio_parts_def decoded_def map_filter_simps option.map_ident)
next
  case (Cons p ps)
  then have IH: "\<And>s. speak_parts e ps s =
     Normal (s\<lparr>audioStreamer :=
         map_option (\<lambda>q. q @ decoded e (audio_parts ps)) (audioStreamer s)\<rparr>)"
    by simp
  from Cons.prems have "sound_part e p" by simp
  then show ?case
    by (cases "audioStreamer s")
       (auto simp: IH sound_part_def audio_parts_def decoded_def map_filter_simps
          startsWith_def Let_def split: option.splits if_splits)
qed

text \<open>
  C6. The claim holds of the responses all of whose parts are sound, and the code breaks
  it on the others. \<open>speakWithGemini\<close> tests \<open>part.inlineData\<close> but calls
  \<open>startsWith\<close> on the media type without a test, inside the \<open>try\<close>: at inline data
  without media type it throws, \<open>TTS Error\<close> is logged, and the parts behind are never
  looked at. Of the two audio parts of \<open>untyped_parts\<close> the streamer gets the first
  only, and a response of one such part, which has no audio part, ends in the error.
\<close>

theorem speak_stops_at_untyped_part:
  "audio_parts untyped_parts =
     [\<lparr>mimeType = Some ''audio/pcm'', data = Some ''AB''\<rparr>,
      \<lparr>mimeType = Some ''audio/pcm'', data = Some ''E''\<rparr>]
   \<and> decoded keyed (audio_parts untyped_parts) = [[65, 66], [69]]
   \<and> speakWithGemini_resume keyed (Inr (Some untyped_parts)) started =
       started\<lparr>audioStreamer := Some [[65, 66]], effects := [ConsoleError ''TTS Error'']\<rparr>
   \<and> audio_parts [\<lparr>inlineData = Some \<lparr>mimeType = None, data = None\<rparr>\<rparr>] = []
   \<and> speakWithGemini_resume keyed
         (Inr (Some [\<lparr>inlineData = Some \<lparr>mimeType = None, data = None\<rparr>\<rparr>])) started =
       started\<lparr>effects := [ConsoleError ''TTS Error'']\<rparr>"
  by code_simp

section \<open>\<open>enqueueTranslation\<close>\<close>

text \<open>
  C3 as stated fails for white space: the guard of \<open>enqueueTranslation\<close> is
  \<open>if (!text) return\<close>, which holds for the empty string only. A single space is
  enqueued, and with the loop not running it goes to the translation stage.
\<close>

theorem enqueue_whitespace_counterexample:
  "trim '' '' = []
   \<and> enqueueTranslation keyed '' '' init \<noteq> init
   \<and> loops (enqueueTranslation keyed '' '' init) = [AwaitTranslate '' '']
   \<and> effects (enqueueTranslation keyed '' '' init) =
       [SetStatus ''Translating...'', NetworkCall (TranslateRequest '' '')]
   \<and> translationQueue (enqueueTranslation keyed '' '' (init\<lparr>processingQueue := True\<rparr>)) = ['' '']"
  by code_simp

lemma onresult_trimmed:
  "snd (onresult e event (ui, s)) = s
   \<or> (\<exists>x. x \<noteq> [] \<and> trim x = x \<and> snd (onresult e event (ui, s)) = enqueueTranslation e x s)"
proof -
  obtain f i where l: "onresult_loop (drop (resultIndex event) (results event)) ([], []) = (f, i)"
    by (cases "onresult_loop (drop (resultIndex event) (results event)) ([], [])")
  show ?thesis
  proof (cases "trim f = []")
    case True
    with l show ?thesis by (simp add: onresult_def)
  next
    case False
    with l have "snd (onresult e event (ui, s)) = enqueueTranslation e (trim f) s"
      by (simp add: onresult_def)
    with False trim_trim [of f] show ?thesis by blast
  qed
qed

text \<open>
  C3, amended. For the empty text \<open>enqueueTranslation\<close> is a no-op. White space is not
  filtered here: every non-empty text is appended to the tail of the queue, and the call
  returns without waiting for a stage. With the flag set it only appends. With the flag
  clear it starts \<open>processQueue\<close> on the queue with the text appended: with an API key
  and from an idle state it returns with the translation call for the text in flight,
  and without an API key it returns when the loop has gone through the queue, with
  status updates only. White space is kept out by the callers: \<open>rec.onresult\<close> and the
  timers of \<open>fetchZoomTranscript\<close> pass trimmed, non-empty text only.
\<close>

theorem enqueue_empty_only:
  "(x = [] \<longrightarrow> enqueueTranslation e x s = s)
   \<and> (x \<noteq> [] \<and> processingQueue s \<longrightarrow>
        enqueueTranslation e x s = s\<lparr>translationQueue := translationQueue s @ [x]\<rparr>)
   \<and> (x \<noteq> [] \<and> \<not> processingQueue s \<longrightarrow>
        enqueueTranslation e x s =
          processQueue e (s\<lparr>translationQueue := translationQueue s @ [x]\<rparr>))
   \<and> (x \<noteq> [] \<and> idle s \<and> apiKey e \<noteq> [] \<longrightarrow>
        enqueueTranslation e x s =
          (emit (NetworkCall (TranslateRequest x)) (setStatus ''Translating...'' s))
            \<lparr>processingQueue := True, loops := [AwaitTranslate x]\<rparr>)
   \<and> (x \<noteq> [] \<and> \<not> processingQueue s \<and> apiKey e = [] \<longrightarrow>
        enqueueTranslation e x s =
          s\<lparr>translationQueue := [], status := ''Idle'',
            effects := effects s @ keyless_statuses (translationQueue s @ [x])
                       @ [SetStatus ''Idle'']\<rparr>)
   \<and> (snd (onresult e event (ui, s)) = s
        \<or> (\<exists>y. y \<noteq> [] \<and> trim y = y
              \<and> snd (onresult e event (ui, s)) = enqueueTranslation e y s))
   \<and> list_all (\<lambda>(delay, y). y \<noteq> [] \<and> trim y = y) (zoom_timers cleanText)"
proof (intro conjI impI)
  show "enqueueTranslation e x s = s" if "x = []"
    using that by (simp add: enqueueTranslation_def)
  show "enqueueTranslation e x s = s\<lparr>translationQueue := translationQueue s @ [x]\<rparr>"
    if "x \<noteq> [] \<and> processingQueue s"
    using that by (simp add: enqueueTranslation_def)
  show "enqueueTranslation e x s =
          processQueue e (s\<lparr>translationQueue := translationQueue s @ [x]\<rparr>)"
    if "x \<noteq> [] \<and> \<not> processingQueue s"
    using that by (simp add: enqueueTranslation_def)
  show "enqueueTranslation e x s =
          (emit (NetworkCall (TranslateRequest x)) (setStatus ''Translating...'' s))
            \<lparr>processingQueue := True, loops := [AwaitTranslate x]\<rparr>"
    if h: "x \<noteq> [] \<and> idle s \<and> apiKey e \<noteq> []"
  proof -
    let ?s = "s\<lparr>translationQueue := [x], processingQueue := True\<rparr>"
    have "drain e ?s =
        (emit (NetworkCall (TranslateRequest x))
           (setStatus ''Translating...'' (?s\<lparr>translationQueue := []\<rparr>)), Some (AwaitTranslate x))"
      using h by (intro drain_Cons_key) simp_all
    with h show ?thesis
      by (simp add: enqueueTranslation_def processQueue_def idle_def setStatus_def emit_def)
  qed
  show "enqueueTranslation e x s =
          s\<lparr>translationQueue := [], status := ''Idle'',
            effects := effects s @ keyless_statuses (translationQueue s @ [x])
                       @ [SetStatus ''Idle'']\<rparr>"
    if h: "x \<noteq> [] \<and> \<not> processingQueue s \<and> apiKey e = []"
  proof -
    let ?s = "s\<lparr>translationQueue := translationQueue s @ [x], processingQueue := True\<rparr>"
    from h have k: "apiKey e = []" by simp
    have "drain e ?s =
        (?s\<lparr>translationQueue := [], processingQueue := False, status := ''Idle'',
            effects := effects ?s @ keyless_statuses (translationQueue s @ [x])
                       @ [SetStatus ''Idle'']\<rparr>, None)"
      by (rule drain_keyless [OF k]) simp
    with h show ?thesis by (simp add: enqueueTranslation_def processQueue_def)
  qed
  show "snd (onresult e event (ui, s)) = s
        \<or> (\<exists>y. y \<noteq> [] \<and> trim y = y
              \<and> snd (onresult e event (ui, s)) = enqueueTranslation e y s)"
    by (rule onresult_trimmed)
  show "list_all (\<lambda>(delay, y). y \<noteq> [] \<and> trim y = y) (zoom_timers cleanText)"
    unfolding zoom_timers_def by (rule forEach_sentence_trimmed)
qed

text \<open>
  The empty text; a single space from the idle state; a text while the loop runs; a text
  without API key; a recognition event of white space and one with a final transcript;
  and the timers of a text.
\<close>

theorem enqueue_empty_only_witness:
  "enqueueTranslation keyed [] started = started
   \<and> '' '' \<noteq> [] \<and> idle started \<and> apiKey keyed \<noteq> [] \<and> apiKey keyless = []
   \<and> enqueueTranslation keyed '' '' started =
       started\<lparr>processingQueue := True, status := ''Translating...'',
         effects := [SetStatus ''Translating...'', NetworkCall (TranslateRequest '' '')],
         loops := [AwaitTranslate '' '']\<rparr>
   \<and> enqueueTranslation keyed ''b''
        (started\<lparr>processingQueue := True, loops := [AwaitTranslate ''a'']\<rparr>) =
       started\<lparr>processingQueue := True, loops := [AwaitTranslate ''a''],
         translationQueue := [''b'']\<rparr>
   \<and> enqueueTranslation keyless ''hi'' init =
       init\<lparr>status := ''Idle'',
         effects := [SetStatus ''Translating...'', SetStatus ''Missing Gemini API Key'',
                     SetStatus ''Idle'']\<rparr>
   \<and> snd (onresult keyed blank_recognition
         (\<lparr>finalTranscript = [], interimTranscript = []\<rparr>, started)) = started
   \<and> snd (onresult keyed example_recognition
         (\<lparr>finalTranscript = [], interimTranscript = []\<rparr>, started)) =
       enqueueTranslation keyed ''hello'' started
   \<and> zoom_timers ''Go.  Stop! Why?now. '' = [(0, ''Go.''), (100, ''Stop!''), (200, ''Why?now.'')]
   \<and> list_all (\<lambda>(delay, y). y \<noteq> [] \<and> trim y = y)
        [(0, ''Go.''), (100, ''Stop!''), (200 :: nat, ''Why?now.'')]"
proof -
  have k: "apiKey keyed \<noteq> []" by (simp add: keyed_def)
  have k0: "apiKey keyless = []" by (simp add: keyless_def)
  have 1: "enqueueTranslation keyed [] started = started"
    using enqueue_empty_only [of "[]" keyed started] by simp
  have "enqueueTranslation keyed '' '' started =
          (emit (NetworkCall (TranslateRequest '' '')) (setStatus ''Translating...'' started))
            \<lparr>processingQueue := True, loops := [AwaitTranslate '' '']\<rparr>"
    using enqueue_empty_only [of "'' ''" keyed started] k idle_started by simp
  then have 2: "enqueueTranslation keyed '' '' started =
       started\<lparr>processingQueue := True, status := ''Translating...'',
         effects := [SetStatus ''Translating...'', NetworkCall (TranslateRequest '' '')],
         loops := [AwaitTranslate '' '']\<rparr>"
    by (simp add: emit_def setStatus_def started_def init_def)
  have 3: "enqueueTranslation keyed ''b''
        (started\<lparr>processingQueue := True, loops := [AwaitTranslate ''a'']\<rparr>) =
       started\<lparr>processingQueue := True, loops := [AwaitTranslate ''a''],
         translationQueue := [''b'']\<rparr>"
    using enqueue_empty_only [of "''b''" keyed "started\<lparr>processingQueue := True, loops := [AwaitTranslate ''a'']\<rparr>"]
    by (simp add: started_def init_def)
  have "enqueueTranslation keyless ''hi'' init =
          init\<lparr>translationQueue := [], status := ''Idle'',
            effects := effects init @ keyless_statuses (translationQueue init @ [''hi''])
                       @ [SetStatus ''Idle'']\<rparr>"
  proof -
    have "''hi'' \<noteq> []" and "\<not> processingQueue init" by (simp_all add: init_def)
    with k0 enqueue_empty_only [of "''hi''" keyless init] show ?thesis by blast
  qed
  then have 4: "enqueueTranslation keyless ''hi'' init =
       init\<lparr>status := ''Idle'',
         effects := [SetStatus ''Translating...'', SetStatus ''Missing Gemini API Key'',
                     SetStatus ''Idle'']\<rparr>"
    by (simp add: init_def keyless_statuses_def)
  have 5: "snd (onresult keyed blank_recognition
         (\<lparr>finalTranscript = [], interimTranscript = []\<rparr>, started)) = started"
    by code_simp
  have 6: "snd (onresult keyed example_recognition
         (\<lparr>finalTranscript = [], interimTranscript = []\<rparr>, started)) =
       enqueueTranslation keyed ''hello'' started"
    by code_simp
  have 7: "zoom_timers ''Go.  Stop! Why?now. '' =
      [(0, ''Go.''), (100, ''Stop!''), (200, ''Why?now.'')]"
    by code_simp
  from enqueue_empty_only [of _ _ _ _ _ "''Go.  Stop! Why?now. ''"] 7
  have 8: "list_all (\<lambda>(delay, y). y \<noteq> [] \<and> trim y = y)
        [(0, ''Go.''), (100, ''Stop!''), (200 :: nat, ''Why?now.'')]"
    by simp
  from 1 2 3 4 5 6 7 8 k k0 idle_started show ?thesis by simp
qed

section \<open>Invariants of runs\<close>

lemma run_snoc:
  "run e (evs @ [ev]) s = (case run e evs s of None \<Rightarrow> None | Some s1 \<Rightarrow> step e ev s1)"
  by (induction evs arbitrary: s) (simp_all split: option.splits)

lemma enqueued_snoc:
  "enqueued (evs @ [ev]) =
     enqueued evs @ (case ev of Enqueue text \<Rightarrow> if text = [] then [] else [text] | _ \<Rightarrow> [])"
  by (induction evs rule: enqueued.induct) (simp_all split: event.splits)

lemma translate_results_snoc:
  "translate_results (evs @ [ev]) =
     translate_results evs @ (case ev of TranslateDone i r \<Rightarrow> [r] | _ \<Rightarrow> [])"
  by (induction evs rule: translate_results.induct) (simp_all split: event.splits)

lemma produced_append: "produced (xs @ ys) = produced xs @ produced ys"
  by (induction xs rule: produced.induct) simp_all

lemma resume_translate_frame:
  "translationQueue (fst (resume_translate e chunk r s)) = translationQueue s
   \<and> processingQueue (fst (resume_translate e chunk r s)) = processingQueue s
   \<and> loops (fst (resume_translate e chunk r s)) = loops s"
  by (cases r)
     (auto simp: resume_translate_def translateWithGemini_resume_def body_translated_def
        speakWithGemini_def setStatus_def emit_def Let_def split: option.splits)

lemma resume_speak_frame:
  "translationQueue (fst (resume_speak e r s)) = translationQueue s
   \<and> processingQueue (fst (resume_speak e r s)) = processingQueue s
   \<and> loops (fst (resume_speak e r s)) = loops s
   \<and> translationItems (fst (resume_speak e r s)) = translationItems s"
  by (simp add: resume_speak_def speakWithGemini_resume_frame)

lemma continue_loop_single_flight:
  assumes "loops s1 = [p0]" and "processingQueue s1" and "[] \<notin> set (translationQueue s1)"
  shows "single_flight (continue_loop e 0 (s1, po))"
proof (cases po)
  case (Some p)
  with assms show ?thesis by (simp add: continue_loop_def single_flight_def)
next
  case None
  obtain s2 po2 where d: "drain e s1 = (s2, po2)" by (cases "drain e s1")
  from drain_preserves [where e = e and s = s1, OF refl] d have l: "loops s2 = [p0]" using assms(1) by simp
  from drain_shape [where e = e and s = s1, OF refl] d assms l None show ?thesis
    by (cases po2) (auto simp: continue_loop_def single_flight_def)
qed

lemma processQueue_single_flight:
  assumes "loops s = []" and "\<not> processingQueue s" and "[] \<notin> set (translationQueue s)"
  shows "single_flight (processQueue e s)"
proof -
  let ?s0 = "s\<lparr>processingQueue := True\<rparr>"
  obtain s2 po2 where d: "drain e ?s0 = (s2, po2)" by (cases "drain e ?s0")
  from drain_preserves [where e = e and s = ?s0, OF refl] d have l: "loops s2 = []" using assms(1) by simp
  from drain_shape [where e = e and s = ?s0, OF refl] d assms l show ?thesis
    by (cases po2) (auto simp: processQueue_def single_flight_def)
qed

lemma step_single_flight:
  assumes "single_flight s" and "step e ev s = Some s1"
  shows "single_flight s1"
proof (cases ev)
  case (Enqueue x)
  show ?thesis
  proof (cases "x = []")
    case True
    with assms Enqueue show ?thesis by (simp add: enqueueTranslation_def)
  next
    case False
    show ?thesis
    proof (cases "processingQueue s")
      case True
      with False assms Enqueue show ?thesis
        by (auto simp: enqueueTranslation_def single_flight_def)
    next
      case f: False
      let ?s = "s\<lparr>translationQueue := translationQueue s @ [x]\<rparr>"
      from f assms(1) have "loops ?s = []" "\<not> processingQueue ?s" "[] \<notin> set (translationQueue ?s)"
        using False by (auto simp: single_flight_def)
      then have "single_flight (processQueue e ?s)" by (rule processQueue_single_flight)
      with f False assms(2) Enqueue show ?thesis by (simp add: enqueueTranslation_def)
    qed
  qed
next
  case (TranslateDone i r)
  with assms(2) have i: "i < length (loops s)" by (simp split: if_splits)
  with assms(1) have i0: "i = 0" by (simp add: single_flight_def)
  from i assms(1) obtain p0 where l: "loops s = [p0]"
    by (cases "loops s") (auto simp: single_flight_def)
  with assms(2) TranslateDone i0 obtain chunk where
    s1: "s1 = continue_loop e 0 (resume_translate e chunk r s)"
    by (cases p0) auto
  obtain s2 po where rt: "resume_translate e chunk r s = (s2, po)"
    by (cases "resume_translate e chunk r s")
  with resume_translate_frame [of e chunk r s] l assms(1)
  have "loops s2 = [p0]" "processingQueue s2" "[] \<notin> set (translationQueue s2)"
    by (auto simp: single_flight_def)
  then have "single_flight (continue_loop e 0 (s2, po))" by (rule continue_loop_single_flight)
  with s1 rt show ?thesis by simp
next
  case (SpeakDone i r)
  with assms(2) have i: "i < length (loops s)" by (simp split: if_splits)
  with assms(1) have i0: "i = 0" by (simp add: single_flight_def)
  from i assms(1) obtain p0 where l: "loops s = [p0]"
    by (cases "loops s") (auto simp: single_flight_def)
  with assms(2) SpeakDone i0 have
    s1: "s1 = continue_loop e 0 (resume_speak e r s)"
    by (cases p0) auto
  obtain s2 po where rt: "resume_speak e r s = (s2, po)"
    by (cases "resume_speak e r s")
  with resume_speak_frame [of e r s] l assms(1)
  have "loops s2 = [p0]" "processingQueue s2" "[] \<notin> set (translationQueue s2)"
    by (auto simp: single_flight_def)
  then have "single_flight (continue_loop e 0 (s2, po))" by (rule continue_loop_single_flight)
  with s1 rt show ?thesis by simp
qed

lemma run_single_flight:
  "single_flight s \<Longrightarrow> run e evs s = Some s1 \<Longrightarrow> single_flight s1"
proof (induction evs arbitrary: s)
  case Nil
  then show ?case by simp
next
  case (Cons ev evs)
  from Cons.prems(2) obtain s2 where "step e ev s = Some s2" "run e evs s2 = Some s1"
    by (auto split: option.splits)
  with Cons.IH Cons.prems(1) step_single_flight show ?case by blast
qed

text \<open>
  C2. In every state that a list of events reaches from an idle state, at most one
  \<open>processQueue\<close> call is suspended, so at most one chunk is in a stage; the flag is set
  exactly while there is one; with the flag clear the queue is empty; with the flag set
  \<open>processQueue\<close> returns at once and \<open>enqueueTranslation\<close> starts no further call.
\<close>

theorem single_flight_invariant:
  assumes "idle s0" and "run e evs s0 = Some s"
  shows "length (loops s) \<le> 1
    \<and> processingQueue s = (loops s \<noteq> [])
    \<and> (\<not> processingQueue s \<longrightarrow> translationQueue s = [])
    \<and> (processingQueue s \<longrightarrow> processQueue e s = s)
    \<and> (processingQueue s \<longrightarrow> loops (enqueueTranslation e x s) = loops s)"
proof -
  from assms(1) have "single_flight s0" by (simp add: idle_def single_flight_def)
  then have "single_flight s" using assms(2) by (rule run_single_flight)
  then show ?thesis
    by (auto simp: single_flight_def processQueue_def enqueueTranslation_def)
qed

text \<open>
  After five events, three of them enqueues, one call is suspended in the speech stage.
\<close>

theorem single_flight_invariant_witness:
  "idle started
   \<and> run keyed (take 5 example_events) started =
       Some (started\<lparr>translationQueue := [''two'', ''three''], processingQueue := True,
         translationItems := [\<lparr>source = ''one'', translated = ''uno''\<rparr>],
         status := ''Speaking...'',
         effects := [SetStatus ''Translating...'', NetworkCall (TranslateRequest ''one''),
           SetStatus ''Speaking...'', NetworkCall (SpeechRequest ''uno'')],
         loops := [AwaitSpeak ''one'' ''uno'']\<rparr>)
   \<and> length (loops (started\<lparr>translationQueue := [''two'', ''three''], processingQueue := True,
         translationItems := [\<lparr>source = ''one'', translated = ''uno''\<rparr>],
         status := ''Speaking...'',
         effects := [SetStatus ''Translating...'', NetworkCall (TranslateRequest ''one''),
           SetStatus ''Speaking...'', NetworkCall (SpeechRequest ''uno'')],
         loops := [AwaitSpeak ''one'' ''uno'']\<rparr>)) \<le> 1"
proof -
  let ?s = "started\<lparr>translationQueue := [''two'', ''three''], processingQueue := True,
         translationItems := [\<lparr>source = ''one'', translated = ''uno''\<rparr>],
         status := ''Speaking...'',
         effects := [SetStatus ''Translating...'', NetworkCall (TranslateRequest ''one''),
           SetStatus ''Speaking...'', NetworkCall (SpeechRequest ''uno'')],
         loops := [AwaitSpeak ''one'' ''uno'']\<rparr>"
  have r: "run keyed (take 5 example_events) started = Some ?s" by code_simp
  from single_flight_invariant [OF idle_started r] have "length (loops ?s) \<le> 1" by blast
  with r idle_started show ?thesis by blast
qed

lemma zip_take_right: "zip (take (length ys) xs) ys = zip xs ys"
proof (induction xs arbitrary: ys)
  case Nil
  show ?case by simp
next
  case (Cons x xs)
  show ?case by (cases ys) (simp_all add: Cons.IH)
qed

lemma zip_snoc_right:
  "drop (length R) E = c # rest \<Longrightarrow> zip E (R @ [r]) = zip E R @ [(c, r)]"
  by (simp add: zip_append2 zip_take_right)

lemma zip_snoc_left: "length R \<le> length E \<Longrightarrow> zip (E @ [t]) R = zip E R"
  by (simp add: zip_append1)

lemma continue_loop_key:
  assumes "apiKey e \<noteq> []" and "loops s1 = [p0]" and "[] \<notin> set (translationQueue s1)"
  shows "awaiting_translate (loops (continue_loop e 0 (s1, None)))
           @ translationQueue (continue_loop e 0 (s1, None)) = translationQueue s1"
proof (cases "translationQueue s1")
  case Nil
  with assms show ?thesis by (simp add: continue_loop_def drain_Nil setStatus_def)
next
  case (Cons c rest)
  with assms(3) have "c \<noteq> []" by auto
  with assms Cons show ?thesis
    by (simp add: continue_loop_def drain_Cons_key setStatus_def emit_def)
qed

lemma resume_translate_items:
  assumes "apiKey e \<noteq> []" and "resume_translate e chunk r s = (s2, po)"
  shows "translationItems s2 = translationItems s @ produced [(chunk, r)]
    \<and> (case po of None \<Rightarrow> True | Some p \<Rightarrow> awaiting_translate [p] = [])"
proof (cases r)
  case (Inl msg)
  with assms show ?thesis
    by (auto simp: resume_translate_def translateWithGemini_resume_def setStatus_def emit_def)
next
  case (Inr resp)
  show ?thesis
  proof (cases resp)
    case None
    with Inr assms show ?thesis
      by (auto simp: resume_translate_def translateWithGemini_resume_def body_translated_def)
  next
    case (Some t)
    with Inr assms show ?thesis
      by (auto simp: resume_translate_def translateWithGemini_resume_def body_translated_def
          speakWithGemini_def setStatus_def emit_def Let_def)
  qed
qed

lemma step_order:
  assumes k: "apiKey e \<noteq> []" and sf: "single_flight s"
    and n: "length R \<le> length E"
    and d: "drop (length R) E = awaiting_translate (loops s) @ translationQueue s"
    and it: "translationItems s = T0 @ produced (zip E R)"
    and st: "step e ev s = Some s1"
    and E1: "E1 = E @ (case ev of Enqueue x \<Rightarrow> if x = [] then [] else [x] | _ \<Rightarrow> [])"
    and R1: "R1 = R @ (case ev of TranslateDone i r \<Rightarrow> [r] | _ \<Rightarrow> [])"
  shows "length R1 \<le> length E1
    \<and> drop (length R1) E1 = awaiting_translate (loops s1) @ translationQueue s1
    \<and> translationItems s1 = T0 @ produced (zip E1 R1)"
proof (cases ev)
  case (Enqueue x)
  show ?thesis
  proof (cases "x = []")
    case True
    with Enqueue st n d it E1 R1 show ?thesis by (simp add: enqueueTranslation_def)
  next
    case False
    show ?thesis
    proof (cases "processingQueue s")
      case True
      with False Enqueue st have "s1 = s\<lparr>translationQueue := translationQueue s @ [x]\<rparr>"
        by (simp add: enqueueTranslation_def)
      with False Enqueue n d it E1 R1 show ?thesis by (simp add: zip_snoc_left)
    next
      case f: False
      with sf have l: "loops s = []" and q: "translationQueue s = []"
        by (simp_all add: single_flight_def)
      with d n have len: "length R = length E" by simp
      let ?s = "s\<lparr>translationQueue := [x], processingQueue := True\<rparr>"
      have "drain e ?s =
        (emit (NetworkCall (TranslateRequest x))
           (setStatus ''Translating...'' (?s\<lparr>translationQueue := []\<rparr>)), Some (AwaitTranslate x))"
        using k False by (intro drain_Cons_key) simp_all
      moreover from st Enqueue have "s1 = enqueueTranslation e x s" by simp
      ultimately have
        "loops s1 = [AwaitTranslate x]" "translationQueue s1 = []"
        "translationItems s1 = translationItems s"
        using f False q l
        by (simp_all add: enqueueTranslation_def processQueue_def setStatus_def emit_def)
      with False Enqueue len it E1 R1 show ?thesis by (simp add: zip_snoc_left)
    qed
  qed
next
  case (TranslateDone i r)
  with st have i: "i < length (loops s)" by (simp split: if_splits)
  with sf have i0: "i = 0" by (simp add: single_flight_def)
  from i sf obtain p0 where l: "loops s = [p0]"
    by (cases "loops s") (auto simp: single_flight_def)
  with st TranslateDone i0 obtain chunk where p0: "p0 = AwaitTranslate chunk"
    and s1: "s1 = continue_loop e 0 (resume_translate e chunk r s)"
    by (cases p0) auto
  from d l p0 have d1: "drop (length R) E = chunk # translationQueue s" by simp
  then have lt: "length R < length E" by (cases "length R < length E") simp_all
  from d1 have d2: "drop (Suc (length R)) E = translationQueue s"
    by (metis drop_Suc list.sel(3) tl_drop)
  obtain s2 po where rt: "resume_translate e chunk r s = (s2, po)"
    by (cases "resume_translate e chunk r s")
  from resume_translate_frame [of e chunk r s] rt l sf
  have fr: "loops s2 = [p0]" "translationQueue s2 = translationQueue s"
    "[] \<notin> set (translationQueue s2)"
    by (auto simp: single_flight_def)
  from resume_translate_items [OF k rt]
  have items: "translationItems s2 = translationItems s @ produced [(chunk, r)]"
    and po: "case po of None \<Rightarrow> True | Some p \<Rightarrow> awaiting_translate [p] = []"
    by simp_all
  have z: "zip E (R @ [r]) = zip E R @ [(chunk, r)]" using d1 by (rule zip_snoc_right)
  have "awaiting_translate (loops s1) @ translationQueue s1 = translationQueue s
      \<and> translationItems s1 = translationItems s2"
  proof (cases po)
    case None
    with s1 rt continue_loop_key [OF k fr(1) fr(3)] continue_loop_done_preserves [of e 0 s2] fr(2)
    show ?thesis by simp
  next
    case (Some p)
    with s1 rt po fr show ?thesis by (simp add: continue_loop_def)
  qed
  with TranslateDone lt d2 it items z E1 R1 show ?thesis
    by (simp add: produced_append)
next
  case (SpeakDone i r)
  with st have i: "i < length (loops s)" by (simp split: if_splits)
  with sf have i0: "i = 0" by (simp add: single_flight_def)
  from i sf obtain p0 where l: "loops s = [p0]"
    by (cases "loops s") (auto simp: single_flight_def)
  with st SpeakDone i0 obtain chunk t where p0: "p0 = AwaitSpeak chunk t"
    and s1: "s1 = continue_loop e 0 (resume_speak e r s)"
    by (cases p0) auto
  from d l p0 have d1: "drop (length R) E = translationQueue s" by simp
  obtain s2 where rt: "resume_speak e r s = (s2, None)"
    by (simp add: resume_speak_def)
  from resume_speak_frame [of e r s] rt l sf
  have fr: "loops s2 = [p0]" "translationQueue s2 = translationQueue s"
    "[] \<notin> set (translationQueue s2)" "translationItems s2 = translationItems s"
    by (auto simp: single_flight_def)
  from s1 rt continue_loop_key [OF k fr(1) fr(3)] continue_loop_done_preserves [of e 0 s2] fr
  have "awaiting_translate (loops s1) @ translationQueue s1 = translationQueue s
      \<and> translationItems s1 = translationItems s"
    by simp
  with SpeakDone n d1 it E1 R1 show ?thesis by simp
qed

lemma run_order_key:
  assumes k: "apiKey e \<noteq> []" and i: "idle s0"
  shows "run e evs s0 = Some s \<Longrightarrow>
     single_flight s
     \<and> length (translate_results evs) \<le> length (enqueued evs)
     \<and> drop (length (translate_results evs)) (enqueued evs) =
         awaiting_translate (loops s) @ translationQueue s
     \<and> translationItems s =
         translationItems s0 @ produced (zip (enqueued evs) (translate_results evs))"
proof (induction evs arbitrary: s rule: rev_induct)
  case Nil
  with i show ?case by (simp add: idle_def single_flight_def)
next
  case (snoc ev evs)
  from snoc.prems obtain s' where r: "run e evs s0 = Some s'" and st: "step e ev s' = Some s"
    by (auto simp: run_snoc split: option.splits)
  from snoc.IH [OF r] have sf: "single_flight s'"
    and n: "length (translate_results evs) \<le> length (enqueued evs)"
    and d: "drop (length (translate_results evs)) (enqueued evs) =
         awaiting_translate (loops s') @ translationQueue s'"
    and it: "translationItems s' =
         translationItems s0 @ produced (zip (enqueued evs) (translate_results evs))"
    by simp_all
  from step_order [OF k sf n d it st enqueued_snoc translate_results_snoc]
    step_single_flight [OF sf st]
  show ?case by simp
qed

lemma step_idle_keyless:
  assumes k: "apiKey e = []" and i: "idle s" and st: "step e ev s = Some s1"
  shows "idle s1 \<and> translationItems s1 = translationItems s
     \<and> (case ev of TranslateDone i r \<Rightarrow> False | _ \<Rightarrow> True)"
proof (cases ev)
  case (Enqueue x)
  with st have "s1 = enqueueTranslation e x s" by simp
  with i k Enqueue show ?thesis
    by (simp add: idle_def enqueueTranslation_def processQueue_def
        drain_keyless [OF k refl])
next
  case (TranslateDone i r)
  with i st show ?thesis by (simp add: idle_def)
next
  case (SpeakDone i r)
  with i st show ?thesis by (simp add: idle_def)
qed

lemma run_idle_keyless:
  assumes k: "apiKey e = []" and i: "idle s0"
  shows "run e evs s0 = Some s \<Longrightarrow>
     idle s \<and> translationItems s = translationItems s0 \<and> translate_results evs = []"
proof (induction evs arbitrary: s rule: rev_induct)
  case Nil
  with i show ?case by simp
next
  case (snoc ev evs)
  from snoc.prems obtain s' where r: "run e evs s0 = Some s'" and st: "step e ev s' = Some s"
    by (auto simp: run_snoc split: option.splits)
  from snoc.IH [OF r] have i': "idle s'" and it: "translationItems s' = translationItems s0"
    and tr: "translate_results evs = []"
    by simp_all
  from step_idle_keyless [OF k i' st] it tr show ?case
    by (cases ev) (simp_all add: translate_results_snoc)
qed

lemma run_items:
  assumes "idle s0" and "run e evs s0 = Some s"
  shows "translationItems s =
     translationItems s0 @ produced (zip (enqueued evs) (translate_results evs))"
proof (cases "apiKey e = []")
  case True
  from run_idle_keyless [OF True assms] show ?thesis by simp
next
  case False
  from run_order_key [OF False assms] show ?thesis by simp
qed

lemma produced_subseq: "subseq (map source (produced (zip E R))) E"
proof (induction E arbitrary: R)
  case Nil
  show ?case by simp
next
  case (Cons c E)
  show ?case
  proof (cases R)
    case Nil
    then show ?thesis by simp
  next
    case (Cons r R')
    show ?thesis
    proof (cases r)
      case (Inl msg)
      with Cons Cons.IH [of R'] show ?thesis by auto
    next
      case (Inr resp)
      with Cons Cons.IH [of R'] show ?thesis by (cases resp) auto
    qed
  qed
qed

lemma produced_all:
  "length R = length E \<Longrightarrow> list_all fruitful R \<Longrightarrow> map source (produced (zip E R)) = E"
proof (induction E arbitrary: R)
  case Nil
  then show ?case by simp
next
  case (Cons c E)
  then obtain r R' where R: "R = r # R'" by (cases R) auto
  with Cons.prems have "fruitful r" by simp
  then obtain t where "r = Inr (Some t)" "trim t \<noteq> []"
    by (cases r rule: fruitful.cases) auto
  with R Cons.prems Cons.IH [of R'] show ?case by simp
qed

lemma produced_skip_failure:
  "produced (zip E (R1 @ Inl msg # R2)) =
     produced (zip (take (length R1) E) R1) @ produced (zip (drop (Suc (length R1)) E) R2)"
proof (cases "drop (length R1) E")
  case Nil
  then have "drop (Suc (length R1)) E = []" by simp
  with Nil show ?thesis by (simp add: zip_append2 produced_append)
next
  case (Cons c rest)
  then have "drop (Suc (length R1)) E = rest" by (metis drop_Suc list.sel(3) tl_drop)
  with Cons show ?thesis by (simp add: zip_append2 produced_append)
qed

text \<open>
  C1. Whatever the order in which enqueues and network results arrive, the items
  appended are those of the enqueued texts paired, in the order of the enqueues, with the
  translation results in the order in which they settle: the \<open>k\<close>-th result belongs to
  the \<open>k\<close>-th enqueued text. Their sources are a subsequence of the enqueued texts; with
  an API key the chunk in flight and the queue are the enqueued texts not yet translated;
  and when every translation gave a non-empty text and the loop has ended, the sources
  of the items are the enqueued texts, in order.
\<close>

theorem order_preserved:
  assumes "idle s0" and "run e evs s0 = Some s"
  shows "translationItems s =
       translationItems s0 @ produced (zip (enqueued evs) (translate_results evs))
    \<and> subseq (map source (produced (zip (enqueued evs) (translate_results evs)))) (enqueued evs)
    \<and> (apiKey e \<noteq> [] \<longrightarrow>
         drop (length (translate_results evs)) (enqueued evs) =
           awaiting_translate (loops s) @ translationQueue s)
    \<and> (apiKey e \<noteq> [] \<and> loops s = [] \<and> list_all fruitful (translate_results evs) \<longrightarrow>
         map source (translationItems s) = map source (translationItems s0) @ enqueued evs)"
proof (intro conjI impI)
  show items: "translationItems s =
       translationItems s0 @ produced (zip (enqueued evs) (translate_results evs))"
    using assms by (rule run_items)
  show "subseq (map source (produced (zip (enqueued evs) (translate_results evs)))) (enqueued evs)"
    by (rule produced_subseq)
  show "drop (length (translate_results evs)) (enqueued evs) =
           awaiting_translate (loops s) @ translationQueue s" if "apiKey e \<noteq> []"
    using run_order_key [OF that assms] by simp
  show "map source (translationItems s) = map source (translationItems s0) @ enqueued evs"
    if h: "apiKey e \<noteq> [] \<and> loops s = [] \<and> list_all fruitful (translate_results evs)"
  proof -
    from h run_order_key [OF _ assms] have sf: "single_flight s"
      and n: "length (translate_results evs) \<le> length (enqueued evs)"
      and d: "drop (length (translate_results evs)) (enqueued evs) =
         awaiting_translate (loops s) @ translationQueue s"
      by simp_all
    from sf h have "translationQueue s = []" by (simp add: single_flight_def)
    with d h n have "length (translate_results evs) = length (enqueued evs)" by simp
    with h have "map source (produced (zip (enqueued evs) (translate_results evs))) = enqueued evs"
      by (simp add: produced_all)
    with items show ?thesis by simp
  qed
qed

text \<open>
  Four texts, enqueued while earlier ones are in a stage, all translated; and the run of
  \<open>example_events\<close>, where the second of three texts fails.
\<close>

theorem order_preserved_witness:
  "idle started
   \<and> run keyed all_fruitful_events started \<noteq> None
   \<and> map_option (\<lambda>s. map source (translationItems s)) (run keyed all_fruitful_events started) =
       Some [''one'', ''two'', ''three'', ''four'']
   \<and> run keyed example_events started = Some example_final
   \<and> translationItems example_final =
       [\<lparr>source = ''one'', translated = ''uno''\<rparr>, \<lparr>source = ''three'', translated = ''tres''\<rparr>]"
proof -
  obtain s where r: "run keyed all_fruitful_events started = Some s"
    by (cases "run keyed all_fruitful_events started") (simp_all, code_simp)
  have k: "apiKey keyed \<noteq> []" by (simp add: keyed_def)
  have l: "loops s = []"
  proof -
    have "map_option loops (run keyed all_fruitful_events started) = Some []" by code_simp
    with r show ?thesis by simp
  qed
  have f: "list_all fruitful (translate_results all_fruitful_events)" by code_simp
  have e: "enqueued all_fruitful_events = [''one'', ''two'', ''three'', ''four'']" by code_simp
  have t0: "translationItems started = []" by code_simp
  from order_preserved [OF idle_started r] k l f
  have "map source (translationItems s) =
      map source (translationItems started) @ enqueued all_fruitful_events"
    by blast
  with e t0 have 1: "map source (translationItems s) = [''one'', ''two'', ''three'', ''four'']"
    by simp
  have p: "produced (zip (enqueued example_events) (translate_results example_events)) =
       [\<lparr>source = ''one'', translated = ''uno''\<rparr>, \<lparr>source = ''three'', translated = ''tres''\<rparr>]"
    by code_simp
  from order_preserved [OF idle_started run_example_events]
  have "translationItems example_final = translationItems started
      @ produced (zip (enqueued example_events) (translate_results example_events))"
    by blast
  with p t0 have 2: "translationItems example_final =
       [\<lparr>source = ''one'', translated = ''uno''\<rparr>, \<lparr>source = ''three'', translated = ''tres''\<rparr>]"
    by simp
  from r 1 2 idle_started run_example_events show ?thesis by simp
qed

section \<open>Errors of the two stages\<close>

text \<open>
  C5 as stated fails for the speech stage: \<open>speakWithGemini\<close> catches the error itself
  and only logs \<open>TTS Error\<close> to the console, so \<open>processQueue\<close> never sees it and the
  status is not updated with the failure.
\<close>

theorem synthesis_error_counterexample:
  "map_option effects
     (run keyed [Enqueue ''a'', TranslateDone 0 (Inr (Some ''b'')), SpeakDone 0 (Inl ''boom'')]
        started) =
     Some [SetStatus ''Translating...'', NetworkCall (TranslateRequest ''a''),
           SetStatus ''Speaking...'', NetworkCall (SpeechRequest ''b''),
           ConsoleError ''TTS Error'', SetStatus ''Idle'']"
  by code_simp

text \<open>
  C5, amended. An error of the translation call is caught in the loop of
  \<open>processQueue\<close>: it is logged, the status becomes \<open>Error: \<close> followed by its message,
  and the loop goes round. An error of the speech call is caught inside
  \<open>speakWithGemini\<close> and logged to the console, the status is left as it is, and the loop
  goes round. In a run from an idle state the items are those of the enqueued texts and
  the translation results whatever the speech calls gave, and a failed translation of
  one text takes nothing from the texts before and after it: their items are appended,
  in order.
\<close>

theorem service_error_contained:
  assumes "idle s0" and "run e evs s0 = Some s"
  shows "(i < length (loops s) \<and> loops s ! i = AwaitTranslate chunk \<longrightarrow>
        step e (TranslateDone i (Inl msg)) s =
          Some (continue_loop e i
            (setStatus (''Error: '' @ msg)
               (emit (ConsoleError ''Process error'')
                  (emit (ConsoleError ''Translation API error'') s)), None)))
    \<and> (i < length (loops s) \<and> loops s ! i = AwaitSpeak chunk t \<longrightarrow>
        step e (SpeakDone i (Inl msg)) s =
          Some (continue_loop e i (emit (ConsoleError ''TTS Error'') s, None)))
    \<and> translationItems s =
        translationItems s0 @ produced (zip (enqueued evs) (translate_results evs))
    \<and> (translate_results evs = R1 @ Inl msg # R2 \<longrightarrow>
        translationItems s =
          translationItems s0
          @ produced (zip (take (length R1) (enqueued evs)) R1)
          @ produced (zip (drop (Suc (length R1)) (enqueued evs)) R2))"
proof (intro conjI impI)
  show "step e (TranslateDone i (Inl msg)) s =
          Some (continue_loop e i
            (setStatus (''Error: '' @ msg)
               (emit (ConsoleError ''Process error'')
                  (emit (ConsoleError ''Translation API error'') s)), None))"
    if "i < length (loops s) \<and> loops s ! i = AwaitTranslate chunk"
    using that by (simp add: resume_translate_def translateWithGemini_resume_def)
  show "step e (SpeakDone i (Inl msg)) s =
          Some (continue_loop e i (emit (ConsoleError ''TTS Error'') s, None))"
    if "i < length (loops s) \<and> loops s ! i = AwaitSpeak chunk t"
    using that by (simp add: resume_speak_def speakWithGemini_resume_def)
  show items: "translationItems s =
        translationItems s0 @ produced (zip (enqueued evs) (translate_results evs))"
    using assms by (rule run_items)
  show "translationItems s =
          translationItems s0
          @ produced (zip (take (length R1) (enqueued evs)) R1)
          @ produced (zip (drop (Suc (length R1)) (enqueued evs)) R2)"
    if "translate_results evs = R1 @ Inl msg # R2"
    using items that by (simp add: produced_skip_failure)
qed

text \<open>
  The run of \<open>example_events\<close>: the second translation fails, the third speech call
  fails, and the items of the first and the third text are there.
\<close>

theorem service_error_contained_witness:
  "idle started
   \<and> run keyed example_events started = Some example_final
   \<and> translate_results example_events =
       [Inr (Some '' uno '')] @ Inl ''503'' # [Inr (Some ''tres'')]
   \<and> translationItems example_final =
       [\<lparr>source = ''one'', translated = ''uno''\<rparr>, \<lparr>source = ''three'', translated = ''tres''\<rparr>]"
proof -
  have t: "translate_results example_events =
       [Inr (Some '' uno '')] @ Inl ''503'' # [Inr (Some ''tres'')]"
    by code_simp
  have t0: "translationItems started = []" by code_simp
  have p: "produced (zip (take (length [Inr (Some '' uno '') :: string + string option])
        (enqueued example_events)) [Inr (Some '' uno '')])
      @ produced (zip (drop (Suc (length [Inr (Some '' uno '') :: string + string option]))
        (enqueued example_events)) [Inr (Some ''tres'')]) =
      [\<lparr>source = ''one'', translated = ''uno''\<rparr>, \<lparr>source = ''three'', translated = ''tres''\<rparr>]"
    by code_simp
  from service_error_contained [OF idle_started run_example_events,
      of _ _ "''503''" _ "[Inr (Some '' uno '')]" "[Inr (Some ''tres'')]"] t
  have "translationItems example_final =
          translationItems started
          @ produced (zip (take (length [Inr (Some '' uno '') :: string + string option])
              (enqueued example_events)) [Inr (Some '' uno '')])
          @ produced (zip (drop (Suc (length [Inr (Some '' uno '') :: string + string option]))
              (enqueued example_events)) [Inr (Some ''tres'')])"
    by blast
  with p t0 have "translationItems example_final =
       [\<lparr>source = ''one'', translated = ''uno''\<rparr>, \<lparr>source = ''three'', translated = ''tres''\<rparr>]"
    by simp
  with t idle_started run_example_events show ?thesis by simp
qed

end
